theory Spec2Isabelle
  imports
    Main
    "HOL-Library.Sublist"
    "HOL-Library.AList"
    "HOL-Library.Char_ord"
    "HOL-Library.List_Lexorder"
begin

section \<open>String primitives of the host language\<close>

text \<open>
  The handlers of \<^verbatim>\<open>src/index.ts\<close> work on JavaScript strings with
  \<^verbatim>\<open>startsWith\<close>, \<^verbatim>\<open>split\<close>, \<^verbatim>\<open>join\<close>,
  \<^verbatim>\<open>replace\<close>, \<^verbatim>\<open>slice\<close>, \<^verbatim>\<open>padStart\<close> and
  \<^verbatim>\<open>String(n)\<close>. A string is a list of characters here; \<^verbatim>\<open>startsWith\<close>
  is \<^const>\<open>prefix\<close>.
\<close>

text \<open>\<^verbatim>\<open>s.indexOf(sep)\<close>: the least position at which \<open>sep\<close> occurs,
  \<open>None\<close> for the \<open>-1\<close> of the source.\<close>

fun index_of :: "string \<Rightarrow> string \<Rightarrow> nat option" where
  "index_of sep [] = (if sep = [] then Some 0 else None)"
| "index_of sep (c # cs) =
     (if prefix sep (c # cs) then Some 0 else map_option Suc (index_of sep cs))"

lemma index_of_bound: "index_of sep s = Some j \<Longrightarrow> j + length sep \<le> length s"
proof (induction s arbitrary: j)
  case Nil
  then show ?case by (simp split: if_splits)
next
  case (Cons c cs)
  show ?case
  proof (cases "prefix sep (c # cs)")
    case True
    with Cons.prems have "j = 0" by simp
    with prefix_length_le [OF True] show ?thesis by simp
  next
    case False
    with Cons.prems obtain j' where "index_of sep cs = Some j'" "j = Suc j'" by auto
    with Cons.IH show ?thesis by fastforce
  qed
qed

text \<open>\<^verbatim>\<open>s.split(sep)\<close> for a non-empty separator: cut at every occurrence found
  from left to right, each search starting behind the previous occurrence.\<close>

function split_at :: "string \<Rightarrow> string \<Rightarrow> string list" where
  "split_at sep s =
     (case index_of sep s of
        None \<Rightarrow> [s]
      | Some j \<Rightarrow>
          (if sep = [] then [s]
           else take j s # split_at sep (drop (j + length sep) s)))"
  by pat_completeness auto
termination
proof (relation "measure (\<lambda>(sep, s). length s)")
  show "wf (measure (\<lambda>(sep, s). length s))" by simp
next
  fix sep s :: string and j
  assume "index_of sep s = Some j" "sep \<noteq> []"
  then have "j + length sep \<le> length s" and "length sep \<noteq> 0"
    by (simp_all add: index_of_bound)
  then have "length s - (j + length sep) < length s"
    by arith
  then show "((sep, drop (j + length sep) s), (sep, s)) \<in> measure (\<lambda>(sep, s). length s)"
    by simp
qed

declare split_at.simps [simp del]

text \<open>\<^verbatim>\<open>s.split(sep)\<close>: with the empty separator the string is cut into its
  single characters (and the empty string gives the empty array).\<close>

definition split_js :: "string \<Rightarrow> string \<Rightarrow> string list" where
  "split_js s sep = (if sep = [] then map (\<lambda>c. [c]) s else split_at sep s)"

text \<open>\<^verbatim>\<open>xs.join(sep)\<close>.\<close>

fun join_js :: "string \<Rightarrow> string list \<Rightarrow> string" where
  "join_js sep [] = []"
| "join_js sep [x] = x"
| "join_js sep (x # y # ys) = x @ sep @ join_js sep (y # ys)"

text \<open>The replacement text of \<^verbatim>\<open>s.replace(pattern, replacement)\<close> with a string
  pattern: in the replacement, \<^verbatim>\<open>$$\<close> stands for a dollar sign, \<^verbatim>\<open>$&\<close>
  for the matched text, \<^verbatim>\<open>$`\<close> for the text before the match and \<^verbatim>\<open>$'\<close>
  for the text behind it; a string pattern has no groups, so every other character
  (a dollar sign before a digit too) stands for itself.\<close>

fun get_substitution :: "string \<Rightarrow> string \<Rightarrow> string \<Rightarrow> string \<Rightarrow> string" where
  "get_substitution matched pre post [] = []"
| "get_substitution matched pre post [c] = [c]"
| "get_substitution matched pre post (c # d # r) =
     (if c = CHR ''$'' \<and> d = CHR ''$'' then CHR ''$'' # get_substitution matched pre post r
      else if c = CHR ''$'' \<and> d = CHR ''&'' then matched @ get_substitution matched pre post r
      else if c = CHR ''$'' \<and> d = CHR 0x60 then pre @ get_substitution matched pre post r
      else if c = CHR ''$'' \<and> d = CHR 0x27 then post @ get_substitution matched pre post r
      else c # get_substitution matched pre post (d # r))"

text \<open>\<^verbatim>\<open>s.replace(old, new)\<close> with a string pattern: the first occurrence only.\<close>

definition replace_first :: "string \<Rightarrow> string \<Rightarrow> string \<Rightarrow> string" where
  "replace_first s old new =
     (case index_of old s of
        None \<Rightarrow> s
      | Some j \<Rightarrow>
          take j s @ get_substitution old (take j s) (drop (j + length old) s) new
            @ drop (j + length old) s)"

text \<open>\<^verbatim>\<open>s.replace(/\/+/g, "/")\<close>: every maximal run of slashes becomes one slash.\<close>

function collapse_slashes :: "string \<Rightarrow> string" where
  "collapse_slashes [] = []"
| "collapse_slashes (c # cs) =
     (if c = CHR ''/'' then CHR ''/'' # collapse_slashes (dropWhile (\<lambda>x. x = CHR ''/'') cs)
      else c # collapse_slashes cs)"
  by pat_completeness auto
termination
  by (relation "measure length") (auto simp: length_dropWhile_le less_Suc_eq_le)

text \<open>\<^verbatim>\<open>s.replace(/c$/, "")\<close>: one trailing character \<open>c\<close> is removed; the
  dollar sign of a pattern without flags matches at the end of the string only.\<close>

definition strip_trailing :: "char \<Rightarrow> string \<Rightarrow> string" where
  "strip_trailing c s = (if s \<noteq> [] \<and> last s = c then butlast s else s)"

text \<open>\<^verbatim>\<open>String(n)\<close> for a natural number, and \<^verbatim>\<open>s.padStart(n, c)\<close>.\<close>

definition digit_char :: "nat \<Rightarrow> char" where
  "digit_char d = ''0123456789'' ! d"

fun string_of_nat :: "nat \<Rightarrow> string" where
  "string_of_nat n =
     (if n < 10 then [digit_char n] else string_of_nat (n div 10) @ [digit_char (n mod 10)])"

declare string_of_nat.simps [simp del]

definition pad_start :: "nat \<Rightarrow> char \<Rightarrow> string \<Rightarrow> string" where
  "pad_start n c s = replicate (n - length s) c @ s"

text \<open>\<^verbatim>\<open>xs.slice(start, end)\<close> on an array: a negative bound counts from the end,
  both bounds are clamped to the array.\<close>

definition slice_js :: "'a list \<Rightarrow> int \<Rightarrow> int \<Rightarrow> 'a list" where
  "slice_js xs start fin =
     (let n = int (length xs);
          k = (if start < 0 then max (n + start) 0 else min start n);
          f = (if fin < 0 then max (n + fin) 0 else min fin n)
      in take (nat (f - k)) (drop (nat k) xs))"

section \<open>The key-value store\<close>

text \<open>
  The Redis client is the external collaborator of the handlers. Its state is a list of
  keys with their entries; an entry is the text stored under the key and the time to
  live last set on it (\<open>None\<close>: the key does not expire). Time does not pass in
  the model: no key expires on its own. The primitives are the seven commands the
  handlers call.
\<close>

record entry =
  content :: string
  expiry :: "nat option"

type_synonym redis = "(string \<times> entry) list"

definition redis_get :: "redis \<Rightarrow> string \<Rightarrow> string option" where
  "redis_get s k = map_option content (map_of s k)"

definition redis_exists :: "redis \<Rightarrow> string \<Rightarrow> bool" where
  "redis_exists s k = (map_of s k \<noteq> None)"

text \<open>\<^verbatim>\<open>SET\<close> stores the text and clears a time to live the key had;
  \<^verbatim>\<open>SETEX\<close> stores the text with a time to live.\<close>

definition redis_set :: "redis \<Rightarrow> string \<Rightarrow> string \<Rightarrow> redis" where
  "redis_set s k v = AList.update k \<lparr>content = v, expiry = None\<rparr> s"

definition redis_setex :: "redis \<Rightarrow> string \<Rightarrow> nat \<Rightarrow> string \<Rightarrow> redis" where
  "redis_setex s k t v = AList.update k \<lparr>content = v, expiry = Some t\<rparr> s"

text \<open>\<^verbatim>\<open>EXPIRE\<close> sets the time to live of a key that exists.\<close>

definition redis_expire :: "redis \<Rightarrow> string \<Rightarrow> nat \<Rightarrow> redis" where
  "redis_expire s k t =
     (case map_of s k of
        None \<Rightarrow> s
      | Some e \<Rightarrow> AList.update k (e\<lparr>expiry := Some t\<rparr>) s)"

definition redis_del :: "redis \<Rightarrow> string list \<Rightarrow> redis" where
  "redis_del s ks = filter (\<lambda>(k, e). k \<notin> set ks) s"

text \<open>
  Modelled from the spec: the pattern scan of the store (the command \<^verbatim>\<open>KEYS\<close>
  of the Redis client), which is not code of the repository. Section 6 of the
  specification fixes its contract as \<^verbatim>\<open>scanByPrefix(pattern)\<close> with
  \<open>pattern = prefix + wildcard suffix\<close>: a pattern that ends in the wildcard
  \<^verbatim>\<open>*\<close> matches the keys that start with the text before it. Every pattern the
  handlers build ends in the wildcard. The text before it is taken literally: a path
  that itself contains a metacharacter of the store's patterns is outside this model.
  The keys are returned in the order of the store's list; the store is an arbitrary
  list, so no statement below depends on a particular order.
\<close>

definition pattern_matches :: "string \<Rightarrow> string \<Rightarrow> bool" where
  "pattern_matches pat k =
     (if pat \<noteq> [] \<and> last pat = CHR ''*'' then prefix (butlast pat) k else pat = k)"

definition redis_keys :: "redis \<Rightarrow> string \<Rightarrow> string list" where
  "redis_keys s pat = filter (pattern_matches pat) (map fst s)"

text \<open>\<^verbatim>\<open>TTL\<close>: the time to live a key has; \<open>None\<close> for a key that is absent or
  does not expire. The handlers never call it; the statements about expiration read
  the store with it.\<close>

definition redis_ttl :: "redis \<Rightarrow> string \<Rightarrow> nat option" where
  "redis_ttl s k = (case map_of s k of None \<Rightarrow> None | Some e \<Rightarrow> expiry e)"

section \<open>The memory tool\<close>

text \<open>The configuration the constructor keeps: the key prefix and the optional time
  to live. The numbers of the source are whole numbers here: the time to live is a
  natural number of seconds, the line of \<^verbatim>\<open>insert\<close> and the bounds of a view
  range are integers.\<close>

record config =
  keyPrefix :: string
  ttl :: "nat option"

text \<open>The constructor: the prefix is \<^verbatim>\<open>base:agentContext\<close> when an agent context
  is given and not empty, and \<^verbatim>\<open>base\<close> otherwise, with the base
  \<^verbatim>\<open>memory\<close> by default.\<close>

definition RedisMemoryTool :: "string option \<Rightarrow> nat option \<Rightarrow> string option \<Rightarrow> config" where
  "RedisMemoryTool prefix_opt ttl_opt context_opt =
     (let base = (case prefix_opt of None \<Rightarrow> ''memory'' | Some b \<Rightarrow> b)
      in \<lparr>keyPrefix =
           (case context_opt of
              None \<Rightarrow> base
            | Some a \<Rightarrow> if a = [] then base else base @ '':'' @ a),
          ttl = ttl_opt\<rparr>)"

text \<open>Every \<^verbatim>\<open>throw new Error(...)\<close> of the handlers, with the values its
  message is built from.\<close>

datatype error =
    InvalidPath string
  | PathNotFound string
  | FileExists string
  | FileNotFound string
  | TextNotFound string
  | TextNotUnique int string
  | InvalidInsertLine int nat string
  | CannotDeleteRoot
  | DestinationExists string
  | SourceNotFound string

text \<open>A handler returns its result, a text or an error, and the store it leaves.\<close>

type_synonym outcome = "(error + string) \<times> redis"

definition pathToKey :: "config \<Rightarrow> string \<Rightarrow> error + string" where
  "pathToKey cfg memoryPath =
     (if \<not> prefix ''/memories'' memoryPath then Inl (InvalidPath memoryPath)
      else Inr (keyPrefix cfg @ '':'' @ strip_trailing CHR ''/'' (collapse_slashes memoryPath)))"

definition keyToPath :: "config \<Rightarrow> string \<Rightarrow> string" where
  "keyToPath cfg key = drop (length (keyPrefix cfg) + 1) key"

text \<open>\<^verbatim>\<open>if (this.ttl)\<close>: a time to live that is absent or zero is not applied.\<close>

definition ttl_set :: "config \<Rightarrow> nat option" where
  "ttl_set cfg = (case ttl cfg of None \<Rightarrow> None | Some t \<Rightarrow> if t = 0 then None else Some t)"

definition setWithTtl :: "config \<Rightarrow> redis \<Rightarrow> string \<Rightarrow> string \<Rightarrow> redis" where
  "setWithTtl cfg s key v =
     (case ttl_set cfg of Some t \<Rightarrow> redis_setex s key t v | None \<Rightarrow> redis_set s key v)"

definition refreshTtl :: "config \<Rightarrow> redis \<Rightarrow> string \<Rightarrow> redis" where
  "refreshTtl cfg s key =
     (case ttl_set cfg of Some t \<Rightarrow> redis_expire s key t | None \<Rightarrow> s)"

definition isFile :: "config \<Rightarrow> redis \<Rightarrow> string \<Rightarrow> error + bool" where
  "isFile cfg s memoryPath =
     (case pathToKey cfg memoryPath of
        Inl e \<Rightarrow> Inl e
      | Inr key \<Rightarrow> Inr (redis_exists s key))"

abbreviation newline :: string where
  "newline \<equiv> [CHR 0x0A]"

text \<open>The loop of \<^verbatim>\<open>view\<close> over the scanned keys: the first segment behind the
  directory prefix is a child, shown with a trailing slash unless a file is stored at
  exactly the child's path. The children are kept in a set, here a list without
  repetition; its order does not matter, the handler sorts it.\<close>

fun collect_children ::
  "config \<Rightarrow> redis \<Rightarrow> string \<Rightarrow> string \<Rightarrow> string list \<Rightarrow> string list \<Rightarrow> error + string list"
where
  "collect_children cfg s dirPrefix parent [] children = Inr children"
| "collect_children cfg s dirPrefix parent (k # ks) children =
     (if prefix dirPrefix k then
        (let relativePath = drop (length dirPrefix) k;
             firstSegment = hd (split_js relativePath ''/'')
         in if firstSegment \<noteq> [] then
              (case isFile cfg s (parent @ ''/'' @ firstSegment) of
                 Inl e \<Rightarrow> Inl e
               | Inr isFileCheck \<Rightarrow>
                   collect_children cfg s dirPrefix parent ks
                     (List.insert (if isFileCheck then firstSegment else firstSegment @ ''/'')
                        children))
            else collect_children cfg s dirPrefix parent ks children)
      else collect_children cfg s dirPrefix parent ks children)"

text \<open>\<^verbatim>\<open>Array.from(children).sort()\<close> and the bullet list built from it.\<close>

definition render_listing :: "string list \<Rightarrow> string" where
  "render_listing children = join_js newline (map (\<lambda>item. ''- '' @ item) (sort children))"

text \<open>The numbered lines of a file: the index from 0 plus \<open>startNum\<close>, padded at the
  start to four characters, a colon, a space and the line.\<close>

definition render_lines :: "nat \<Rightarrow> string list \<Rightarrow> string list" where
  "render_lines startNum displayLines =
     map (\<lambda>(i, line). pad_start 4 CHR '' '' (string_of_nat (i + startNum)) @ '': '' @ line)
       (enumerate 0 displayLines)"

definition view :: "config \<Rightarrow> redis \<Rightarrow> string \<Rightarrow> int list option \<Rightarrow> outcome" where
  "view cfg s memoryPath view_range =
     (if memoryPath = ''/memories'' then
        (let keys = redis_keys s (keyPrefix cfg @ '':/memories/*'')
         in if keys = [] then (Inr (''Directory: /memories'' @ newline @ ''(empty)''), s)
            else
              (case collect_children cfg s (keyPrefix cfg @ '':/memories/'') ''/memories'' keys [] of
                 Inl e \<Rightarrow> (Inl e, s)
               | Inr children \<Rightarrow>
                   (Inr (''Directory: /memories'' @ newline @ render_listing children), s)))
      else
        (case pathToKey cfg memoryPath of
           Inl e \<Rightarrow> (Inl e, s)
         | Inr key \<Rightarrow>
             (case redis_get s key of
                Some text \<Rightarrow>
                  (let s' = refreshTtl cfg s key;
                       lines = split_js text newline;
                       (displayLines, startNum) =
                         (case view_range of
                            Some [rangeStart, rangeEnd] \<Rightarrow>
                              (let startLine = max 1 rangeStart - 1;
                                   endLine = (if rangeEnd = - 1 then int (length lines) else rangeEnd)
                               in (slice_js lines startLine endLine, nat startLine + 1))
                          | _ \<Rightarrow> (lines, 1))
                   in (Inr (join_js newline (render_lines startNum displayLines)), s'))
              | None \<Rightarrow>
                  (let keys = redis_keys s (key @ ''/*'')
                   in if keys = [] then (Inl (PathNotFound memoryPath), s)
                      else
                        (case collect_children cfg s (key @ ''/'') memoryPath keys [] of
                           Inl e \<Rightarrow> (Inl e, s)
                         | Inr children \<Rightarrow>
                             (Inr (''Directory: '' @ memoryPath @ newline @ render_listing children),
                              s))))))"

definition create :: "config \<Rightarrow> redis \<Rightarrow> string \<Rightarrow> string \<Rightarrow> outcome" where
  "create cfg s memoryPath file_text =
     (case pathToKey cfg memoryPath of
        Inl e \<Rightarrow> (Inl e, s)
      | Inr key \<Rightarrow>
          (if redis_exists s key then (Inl (FileExists memoryPath), s)
           else (Inr (''File created successfully at '' @ memoryPath),
                 setWithTtl cfg s key file_text)))"

definition str_replace :: "config \<Rightarrow> redis \<Rightarrow> string \<Rightarrow> string \<Rightarrow> string \<Rightarrow> outcome" where
  "str_replace cfg s memoryPath old_str new_str =
     (case pathToKey cfg memoryPath of
        Inl e \<Rightarrow> (Inl e, s)
      | Inr key \<Rightarrow>
          (case redis_get s key of
             None \<Rightarrow> (Inl (FileNotFound memoryPath), s)
           | Some text \<Rightarrow>
               (let count = int (length (split_js text old_str)) - 1
                in if count = 0 then (Inl (TextNotFound memoryPath), s)
                   else if count > 1 then (Inl (TextNotUnique count memoryPath), s)
                   else (Inr (''File '' @ memoryPath @ '' has been edited''),
                         setWithTtl cfg s key (replace_first text old_str new_str)))))"

text \<open>\<^verbatim>\<open>lines.splice(i, 0, x)\<close>: \<open>x\<close> becomes the element at index \<open>i\<close>.\<close>

definition splice_in :: "'a list \<Rightarrow> nat \<Rightarrow> 'a \<Rightarrow> 'a list" where
  "splice_in xs i x = take i xs @ [x] @ drop i xs"

definition insert_cmd :: "config \<Rightarrow> redis \<Rightarrow> string \<Rightarrow> int \<Rightarrow> string \<Rightarrow> outcome" where
  "insert_cmd cfg s memoryPath insert_line insert_text =
     (case pathToKey cfg memoryPath of
        Inl e \<Rightarrow> (Inl e, s)
      | Inr key \<Rightarrow>
          (case redis_get s key of
             None \<Rightarrow> (Inl (FileNotFound memoryPath), s)
           | Some text \<Rightarrow>
               (let lines = split_js text newline
                in if insert_line < 0 \<or> insert_line > int (length lines)
                   then (Inl (InvalidInsertLine insert_line (length lines) memoryPath), s)
                   else (Inr (''Text inserted at line '' @ string_of_nat (nat insert_line)
                                @ '' in '' @ memoryPath),
                         setWithTtl cfg s key
                           (join_js newline
                              (splice_in lines (nat insert_line)
                                 (strip_trailing CHR 0x0A insert_text)))))))"

definition delete_cmd :: "config \<Rightarrow> redis \<Rightarrow> string \<Rightarrow> outcome" where
  "delete_cmd cfg s memoryPath =
     (if memoryPath = ''/memories'' then (Inl CannotDeleteRoot, s)
      else
        (case pathToKey cfg memoryPath of
           Inl e \<Rightarrow> (Inl e, s)
         | Inr key \<Rightarrow>
             (if redis_exists s key
              then (Inr (''File deleted: '' @ memoryPath), redis_del s [key])
              else
                (let keys = redis_keys s (key @ ''/*'')
                 in if keys = [] then (Inl (PathNotFound memoryPath), s)
                    else (Inr (''Directory deleted: '' @ memoryPath), redis_del s keys)))))"

text \<open>The first loop of \<^verbatim>\<open>rename\<close>: the destination of every scanned key is
  probed, and the first one that exists is the error.\<close>

fun check_destinations :: "redis \<Rightarrow> string \<Rightarrow> string \<Rightarrow> string \<Rightarrow> string list \<Rightarrow> error option" where
  "check_destinations s oldKey newKey newPath [] = None"
| "check_destinations s oldKey newKey newPath (key # keys) =
     (let relativePath = drop (length oldKey) key;
          destKey = newKey @ relativePath
      in if redis_exists s destKey then Some (DestinationExists (newPath @ relativePath))
         else check_destinations s oldKey newKey newPath keys)"

text \<open>The second loop of \<^verbatim>\<open>rename\<close>: every scanned key that still has a text
  is written to its destination and deleted.\<close>

fun move_children :: "config \<Rightarrow> redis \<Rightarrow> string \<Rightarrow> string \<Rightarrow> string list \<Rightarrow> redis" where
  "move_children cfg s oldKey newKey [] = s"
| "move_children cfg s oldKey newKey (key # keys) =
     (case redis_get s key of
        None \<Rightarrow> move_children cfg s oldKey newKey keys
      | Some fileContent \<Rightarrow>
          (let relativePath = drop (length oldKey) key;
               destKey = newKey @ relativePath
           in move_children cfg (redis_del (setWithTtl cfg s destKey fileContent) [key])
                oldKey newKey keys))"

definition rename :: "config \<Rightarrow> redis \<Rightarrow> string \<Rightarrow> string \<Rightarrow> outcome" where
  "rename cfg s oldPath newPath =
     (case pathToKey cfg oldPath of
        Inl e \<Rightarrow> (Inl e, s)
      | Inr oldKey \<Rightarrow>
          (case pathToKey cfg newPath of
             Inl e \<Rightarrow> (Inl e, s)
           | Inr newKey \<Rightarrow>
               (case redis_get s oldKey of
                  Some text \<Rightarrow>
                    (if redis_exists s newKey then (Inl (DestinationExists newPath), s)
                     else (Inr (''Renamed '' @ oldPath @ '' to '' @ newPath),
                           redis_del (setWithTtl cfg s newKey text) [oldKey]))
                | None \<Rightarrow>
                    (let keys = redis_keys s (oldKey @ ''/*'')
                     in if keys = [] then (Inl (SourceNotFound oldPath), s)
                        else
                          (case check_destinations s oldKey newKey newPath keys of
                             Some e \<Rightarrow> (Inl e, s)
                           | None \<Rightarrow>
                               (Inr (''Renamed '' @ oldPath @ '' to '' @ newPath),
                                move_children cfg s oldKey newKey keys))))))"

definition clearAll :: "config \<Rightarrow> redis \<Rightarrow> redis" where
  "clearAll cfg s =
     (let keys = redis_keys s (keyPrefix cfg @ '':/memories/*'')
      in if keys \<noteq> [] then redis_del s keys else s)"

definition getAllPaths :: "config \<Rightarrow> redis \<Rightarrow> string list" where
  "getAllPaths cfg s =
     sort (map (keyToPath cfg) (redis_keys s (keyPrefix cfg @ '':/memories/*'')))"

section \<open>Three notions in the words of the specification\<close>

text \<open>
  The specification describes the encoding of a path as collapsing every run of repeated
  separators to one and stripping one trailing separator. Read literally: of two
  adjacent separators the first is dropped, until no two are adjacent; then a final
  separator, if there is one, is removed. These two definitions are compared with the
  regular-expression replacements of \<open>pathToKey\<close> below.
\<close>

fun collapse_runs :: "string \<Rightarrow> string" where
  "collapse_runs (a # b # r) =
     (if a = CHR ''/'' \<and> b = CHR ''/'' then collapse_runs (b # r)
      else a # collapse_runs (b # r))"
| "collapse_runs r = r"

definition normalize_spec :: "string \<Rightarrow> string" where
  "normalize_spec p =
     (let q = collapse_runs p in if q \<noteq> [] \<and> last q = CHR ''/'' then butlast q else q)"

text \<open>
  The specification asks that a path begin with the namespace root, which its glossary
  defines as the fixed top-level path segment all valid paths are rooted under: the
  path is the root itself, or the root followed by a separator and more.
\<close>

definition begins_with_root_segment :: "string \<Rightarrow> bool" where
  "begins_with_root_segment p = (p = ''/memories'' \<or> prefix ''/memories/'' p)"

text \<open>
  The classification of a path, in the words of section 4.2 of the specification:
  \<open>File\<close> iff a key exists exactly at the encoded path, else \<open>Directory\<close> iff the
  scan for the encoded path, a separator and the wildcard returns a key, else
  \<open>Absent\<close>. The source has no function of this name: \<^verbatim>\<open>view\<close>,
  \<^verbatim>\<open>delete\<close> and \<^verbatim>\<open>rename\<close> make these two checks inline, in this order.
\<close>

datatype kind = File | Directory | Absent

definition classify :: "config \<Rightarrow> redis \<Rightarrow> string \<Rightarrow> error + kind" where
  "classify cfg s memoryPath =
     (case pathToKey cfg memoryPath of
        Inl e \<Rightarrow> Inl e
      | Inr key \<Rightarrow>
          Inr (if redis_exists s key then File
               else if redis_keys s (key @ ''/*'') \<noteq> [] then Directory
               else Absent))"

section \<open>Facts about the store\<close>

lemma map_of_setWithTtl:
  "map_of (setWithTtl cfg s k v) = (map_of s)(k \<mapsto> \<lparr>content = v, expiry = ttl_set cfg\<rparr>)"
  by (cases "ttl_set cfg") (simp_all add: setWithTtl_def redis_set_def redis_setex_def update_conv')

lemma map_of_redis_del:
  "map_of (redis_del s ks) k = (if k \<in> set ks then None else map_of s k)"
  by (induction s) (auto simp: redis_del_def)

lemma map_of_redis_expire:
  "map_of (redis_expire s k t) =
     (case map_of s k of None \<Rightarrow> map_of s | Some e \<Rightarrow> (map_of s)(k \<mapsto> e\<lparr>expiry := Some t\<rparr>))"
  by (simp add: redis_expire_def update_conv' split: option.splits)

lemma redis_keys_iff:
  "k \<in> set (redis_keys s pat) \<longleftrightarrow> map_of s k \<noteq> None \<and> pattern_matches pat k"
  by (auto simp: redis_keys_def map_of_eq_None_iff)

lemma pattern_matches_subtree [simp]:
  "pattern_matches (key @ ''/*'') k = prefix (key @ ''/'') k"
  by (simp add: pattern_matches_def butlast_append)

lemma not_prefix_slash_self [simp]: "\<not> prefix (key @ ''/'') key"
  by (auto simp: prefix_def)

lemma redis_keys_setWithTtl_other:
  "\<not> pattern_matches pat k \<Longrightarrow> redis_keys (setWithTtl cfg s k v) pat = redis_keys s pat"
  by (cases "ttl_set cfg")
     (auto simp: setWithTtl_def redis_set_def redis_setex_def redis_keys_def update_keys)

lemma redis_keys_del_other:
  "\<forall>k\<in>set ks. \<not> pattern_matches pat k \<Longrightarrow> redis_keys (redis_del s ks) pat = redis_keys s pat"
  by (induction s) (auto simp: redis_keys_def redis_del_def)

section \<open>Lines of a text\<close>

lemma split_at_single_Nil: "split_at [c] [] = [[]]"
  by (simp add: split_at.simps)

lemma split_at_not_Nil: "split_at sep s \<noteq> []"
  by (subst split_at.simps) (simp split: option.splits)

lemma split_at_single_Cons:
  "split_at [c] (x # xs) =
     (if x = c then [] # split_at [c] xs
      else (x # hd (split_at [c] xs)) # tl (split_at [c] xs))"
proof (cases "x = c")
  case True
  then show ?thesis by (subst split_at.simps) simp
next
  case False
  show ?thesis
  proof (cases "index_of [c] xs")
    case None
    then have "split_at [c] xs = [xs]" by (subst split_at.simps) simp
    moreover from None False have "split_at [c] (x # xs) = [x # xs]"
      by (subst split_at.simps) simp
    ultimately show ?thesis using False by simp
  next
    case (Some j)
    then have "split_at [c] xs = take j xs # split_at [c] (drop (j + 1) xs)"
      by (subst split_at.simps) simp
    moreover from Some False
    have "split_at [c] (x # xs) = (x # take j xs) # split_at [c] (drop (j + 1) xs)"
      by (subst split_at.simps) simp
    ultimately show ?thesis using False by simp
  qed
qed

lemma split_at_no_sep: "c \<notin> set s \<Longrightarrow> split_at [c] s = [s]"
  by (induction s) (auto simp: split_at_single_Nil split_at_single_Cons)

lemma split_at_elems: "l \<in> set (split_at [c] s) \<Longrightarrow> c \<notin> set l"
proof (induction s arbitrary: l)
  case Nil
  then show ?case by (simp add: split_at_single_Nil)
next
  case (Cons x xs)
  show ?case
  proof (cases "x = c")
    case True
    with Cons show ?thesis by (auto simp: split_at_single_Cons)
  next
    case False
    obtain r rs where r: "split_at [c] xs = r # rs"
      using split_at_not_Nil [of "[c]" xs] by (cases "split_at [c] xs") auto
    with Cons.prems False have "l = x # r \<or> l \<in> set rs"
      by (simp add: split_at_single_Cons)
    with Cons.IH r False show ?thesis by auto
  qed
qed

lemma split_at_append:
  "split_at [c] (a @ c # b) = split_at [c] a @ split_at [c] b"
proof (induction a)
  case Nil
  show ?case by (simp add: split_at_single_Nil split_at_single_Cons)
next
  case (Cons x a)
  obtain r rs where r: "split_at [c] a = r # rs"
    using split_at_not_Nil [of "[c]" a] by (cases "split_at [c] a") auto
  with Cons show ?case by (simp add: split_at_single_Cons)
qed

lemma join_split_at: "join_js [c] (split_at [c] s) = s"
proof (induction s)
  case Nil
  show ?case by (simp add: split_at_single_Nil)
next
  case (Cons x xs)
  obtain r rs where r: "split_at [c] xs = r # rs"
    using split_at_not_Nil [of "[c]" xs] by (cases "split_at [c] xs") auto
  with Cons show ?case
    by (cases rs) (auto simp: split_at_single_Cons)
qed

lemma split_at_join:
  "ls \<noteq> [] \<Longrightarrow> split_at [c] (join_js [c] ls) = concat (map (split_at [c]) ls)"
proof (induction ls)
  case Nil
  then show ?case by simp
next
  case (Cons x ls)
  show ?case
  proof (cases ls)
    case Nil
    then show ?thesis by simp
  next
    case (Cons y ys)
    with Cons.IH have "split_at [c] (join_js [c] (y # ys)) = concat (map (split_at [c]) (y # ys))"
      by simp
    with Cons show ?thesis by (simp add: split_at_append)
  qed
qed

lemma concat_map_singletons:
  "(\<And>l. l \<in> set ls \<Longrightarrow> f l = [l]) \<Longrightarrow> concat (map f ls) = ls"
  by (induction ls) simp_all

lemma render_lines_length: "length (render_lines n ls) = length ls"
  by (simp add: render_lines_def)

lemma render_lines_nth:
  "j < length ls \<Longrightarrow>
     render_lines n ls ! j = pad_start 4 CHR '' '' (string_of_nat (j + n)) @ '': '' @ ls ! j"
  by (simp add: render_lines_def nth_enumerate_eq)

section \<open>Renaming a directory\<close>

lemma check_destinations_None:
  "check_destinations s oldKey newKey newPath ks = None \<longleftrightarrow>
     (\<forall>k\<in>set ks. \<not> redis_exists s (newKey @ drop (length oldKey) k))"
  by (induction ks) (simp_all add: Let_def)

lemma check_destinations_Some:
  "check_destinations s oldKey newKey newPath ks = Some e \<Longrightarrow>
     \<exists>k\<in>set ks. redis_exists s (newKey @ drop (length oldKey) k) \<and>
       e = DestinationExists (newPath @ drop (length oldKey) k)"
  by (induction ks) (auto simp: Let_def split: if_splits)

lemma map_of_move_step:
  "map_of (redis_del (setWithTtl cfg s d c) [k]) x =
     (if x = k then None
      else if x = d then Some \<lparr>content = c, expiry = ttl_set cfg\<rparr>
      else map_of s x)"
  by (simp add: map_of_redis_del map_of_setWithTtl)

lemma move_children_other:
  assumes "x \<notin> set ks"
    and "\<forall>k\<in>set ks. newKey @ drop (length oldKey) k \<notin> set ks"
    and "\<forall>k\<in>set ks. newKey @ drop (length oldKey) k = x \<longrightarrow> map_of s k = None"
  shows "map_of (move_children cfg s oldKey newKey ks) x = map_of s x"
  using assms
proof (induction ks arbitrary: s)
  case Nil
  show ?case by simp
next
  case (Cons k0 ks)
  let ?d = "newKey @ drop (length oldKey) k0"
  from Cons.prems have x: "x \<notin> set ks" "x \<noteq> k0"
    and nd: "\<forall>k\<in>set ks. newKey @ drop (length oldKey) k \<notin> set ks"
    and d0: "?d \<notin> set ks" "?d \<noteq> k0"
    by auto
  show ?case
  proof (cases "map_of s k0")
    case None
    then have "move_children cfg s oldKey newKey (k0 # ks) = move_children cfg s oldKey newKey ks"
      by (simp add: redis_get_def)
    moreover have "map_of (move_children cfg s oldKey newKey ks) x = map_of s x"
      using x nd Cons.prems(3) by (intro Cons.IH) auto
    ultimately show ?thesis by simp
  next
    case (Some e)
    let ?s' = "redis_del (setWithTtl cfg s ?d (content e)) [k0]"
    from Some have step: "move_children cfg s oldKey newKey (k0 # ks)
        = move_children cfg ?s' oldKey newKey ks"
      by (simp add: redis_get_def Let_def)
    from Some Cons.prems(3) have dx: "?d \<noteq> x" by auto
    have "\<forall>k\<in>set ks. newKey @ drop (length oldKey) k = x \<longrightarrow> map_of ?s' k = None"
      using Cons.prems(3) d0 by (auto simp: map_of_move_step)
    with x nd have "map_of (move_children cfg ?s' oldKey newKey ks) x = map_of ?s' x"
      by (intro Cons.IH) auto
    with step x dx show ?thesis by (simp add: map_of_move_step)
  qed
qed

lemma move_children_source:
  assumes "x \<in> set ks"
    and "\<forall>k\<in>set ks. newKey @ drop (length oldKey) k \<notin> set ks"
  shows "map_of (move_children cfg s oldKey newKey ks) x = None"
  using assms
proof (induction ks arbitrary: s)
  case Nil
  then show ?case by simp
next
  case (Cons k0 ks)
  let ?d = "newKey @ drop (length oldKey) k0"
  from Cons.prems have nd: "\<forall>k\<in>set ks. newKey @ drop (length oldKey) k \<notin> set ks"
    and nk0: "\<forall>k\<in>set ks. newKey @ drop (length oldKey) k \<noteq> k0"
    and d0: "?d \<noteq> k0"
    by auto
  obtain s' where step: "move_children cfg s oldKey newKey (k0 # ks)
        = move_children cfg s' oldKey newKey ks"
    and gone: "map_of s' k0 = None"
  proof (cases "map_of s k0")
    case None
    then show ?thesis using that [of s] by (simp add: redis_get_def)
  next
    case (Some e)
    then show ?thesis
      using that [of "redis_del (setWithTtl cfg s ?d (content e)) [k0]"]
      by (simp add: redis_get_def Let_def map_of_move_step)
  qed
  show ?case
  proof (cases "x \<in> set ks")
    case True
    with nd step show ?thesis by (simp add: Cons.IH)
  next
    case False
    with Cons.prems have "x = k0" by simp
    moreover have "map_of (move_children cfg s' oldKey newKey ks) k0 = map_of s' k0"
      using False \<open>x = k0\<close> nd nk0 by (intro move_children_other) auto
    ultimately show ?thesis using step gone by simp
  qed
qed

lemma move_children_dest:
  assumes "k \<in> set ks" and "map_of s k = Some e"
    and "\<forall>k\<in>set ks. newKey @ drop (length oldKey) k \<notin> set ks"
    and "inj_on (\<lambda>k. newKey @ drop (length oldKey) k) (set ks)"
  shows "map_of (move_children cfg s oldKey newKey ks) (newKey @ drop (length oldKey) k)
           = Some \<lparr>content = content e, expiry = ttl_set cfg\<rparr>"
  using assms
proof (induction ks arbitrary: s)
  case Nil
  then show ?case by simp
next
  case (Cons k0 ks)
  let ?dest = "\<lambda>k. newKey @ drop (length oldKey) k"
  from Cons.prems have nd: "\<forall>k\<in>set ks. ?dest k \<notin> set ks"
    and d0: "?dest k0 \<notin> set ks" "?dest k0 \<noteq> k0"
    and inj: "inj_on ?dest (set ks)"
    and inj0: "\<forall>k'\<in>set ks. ?dest k' = ?dest k0 \<longrightarrow> k' = k0"
    by (auto simp: inj_on_def)
  show ?case
  proof (cases "k = k0")
    case True
    let ?s' = "redis_del (setWithTtl cfg s (?dest k0) (content e)) [k0]"
    from True Cons.prems(2) have step: "move_children cfg s oldKey newKey (k0 # ks)
        = move_children cfg ?s' oldKey newKey ks"
      by (simp add: redis_get_def Let_def)
    have "map_of (move_children cfg ?s' oldKey newKey ks) (?dest k0) = map_of ?s' (?dest k0)"
      using d0 nd inj0 by (intro move_children_other) (auto simp: map_of_move_step)
    with step True d0 show ?thesis by (simp add: map_of_move_step)
  next
    case False
    with Cons.prems have k: "k \<in> set ks" by simp
    with d0 have kd: "k \<noteq> ?dest k0" by auto
    show ?thesis
    proof (cases "map_of s k0")
      case None
      then have "move_children cfg s oldKey newKey (k0 # ks) = move_children cfg s oldKey newKey ks"
        by (simp add: redis_get_def)
      with Cons.IH [OF k Cons.prems(2) nd inj] show ?thesis by simp
    next
      case (Some e0)
      let ?s' = "redis_del (setWithTtl cfg s (?dest k0) (content e0)) [k0]"
      from Some have step: "move_children cfg s oldKey newKey (k0 # ks)
          = move_children cfg ?s' oldKey newKey ks"
        by (simp add: redis_get_def Let_def)
      from False kd Cons.prems(2) have "map_of ?s' k = Some e"
        by (simp add: map_of_move_step)
      from Cons.IH [OF k this nd inj] step show ?thesis by simp
    qed
  qed
qed

lemma subtree_key_shape:
  "k \<in> set (redis_keys s (oldKey @ ''/*'')) \<Longrightarrow> k = oldKey @ drop (length oldKey) k"
  by (auto simp: redis_keys_iff prefix_def)

lemma subtree_dest_inj:
  "inj_on (\<lambda>k. newKey @ drop (length oldKey) k) (set (redis_keys s (oldKey @ ''/*'')))"
proof (rule inj_onI)
  fix a b
  assume a: "a \<in> set (redis_keys s (oldKey @ ''/*''))"
    and b: "b \<in> set (redis_keys s (oldKey @ ''/*''))"
    and eq: "newKey @ drop (length oldKey) a = newKey @ drop (length oldKey) b"
  from eq have "drop (length oldKey) a = drop (length oldKey) b" by simp
  with subtree_key_shape [OF a] subtree_key_shape [OF b] show "a = b" by metis
qed

text \<open>
  Claim C1. Let \<open>oldPath\<close> classify as a directory, that is, it has no entry of its own
  and at least one descendant entry, and let every descendant key be mapped to the new
  key followed by what follows the old key in it. If the mapped key of any descendant
  exists in the store, \<open>rename\<close> fails with the error for an existing destination and
  the store is the one before the call. If no mapped key exists, \<open>rename\<close> succeeds:
  every descendant key is gone, its text is stored under its mapped key with the
  configured time to live, and every other key is as before.
\<close>

theorem rename_directory_all_or_nothing:
  assumes dir: "classify cfg s oldPath = Inr Directory"
    and old: "pathToKey cfg oldPath = Inr oldKey"
    and new: "pathToKey cfg newPath = Inr newKey"
  shows "(let ks = redis_keys s (oldKey @ ''/*'');
              dest = (\<lambda>k. newKey @ drop (length oldKey) k)
          in ks \<noteq> [] \<and>
             ((\<exists>k\<in>set ks. redis_exists s (dest k)) \<longrightarrow>
                (\<exists>k\<in>set ks. redis_exists s (dest k) \<and>
                   rename cfg s oldPath newPath =
                     (Inl (DestinationExists (newPath @ drop (length oldKey) k)), s))) \<and>
             ((\<forall>k\<in>set ks. \<not> redis_exists s (dest k)) \<longrightarrow>
                (\<exists>s'. rename cfg s oldPath newPath =
                        (Inr (''Renamed '' @ oldPath @ '' to '' @ newPath), s') \<and>
                   (\<forall>k\<in>set ks. map_of s' k = None \<and>
                      (\<exists>e. map_of s k = Some e \<and>
                         map_of s' (dest k) = Some \<lparr>content = content e, expiry = ttl_set cfg\<rparr>)) \<and>
                   (\<forall>x. x \<notin> set ks \<and> x \<notin> dest ` set ks \<longrightarrow> map_of s' x = map_of s x))))"
proof -
  define ks where "ks = redis_keys s (oldKey @ ''/*'')"
  define dest where "dest = (\<lambda>k. newKey @ drop (length oldKey) k)"
  from dir old have nofile: "redis_get s oldKey = None" and ne: "ks \<noteq> []"
    by (auto simp: classify_def ks_def redis_exists_def redis_get_def split: if_splits)
  have present: "map_of s k \<noteq> None" if "k \<in> set ks" for k
    using that by (simp add: ks_def redis_keys_iff)
  have inj: "inj_on (\<lambda>k. newKey @ drop (length oldKey) k) (set ks)"
    unfolding ks_def by (rule subtree_dest_inj)
  have conflict: "\<exists>k\<in>set ks. redis_exists s (dest k) \<and>
      rename cfg s oldPath newPath =
        (Inl (DestinationExists (newPath @ drop (length oldKey) k)), s)"
    if "\<exists>k\<in>set ks. redis_exists s (dest k)"
  proof -
    from that have "check_destinations s oldKey newKey newPath ks \<noteq> None"
      by (simp add: check_destinations_None dest_def)
    then obtain e where e: "check_destinations s oldKey newKey newPath ks = Some e"
      by auto
    from check_destinations_Some [OF e] obtain k where k: "k \<in> set ks"
      "redis_exists s (dest k)" "e = DestinationExists (newPath @ drop (length oldKey) k)"
      by (auto simp: dest_def)
    from e k(3) have "rename cfg s oldPath newPath =
        (Inl (DestinationExists (newPath @ drop (length oldKey) k)), s)"
      using old new nofile ne by (simp add: rename_def ks_def [symmetric] Let_def)
    with k show ?thesis by blast
  qed
  have moved: "\<exists>s'. rename cfg s oldPath newPath =
        (Inr (''Renamed '' @ oldPath @ '' to '' @ newPath), s') \<and>
      (\<forall>k\<in>set ks. map_of s' k = None \<and>
         (\<exists>e. map_of s k = Some e \<and>
            map_of s' (dest k) = Some \<lparr>content = content e, expiry = ttl_set cfg\<rparr>)) \<and>
      (\<forall>x. x \<notin> set ks \<and> x \<notin> dest ` set ks \<longrightarrow> map_of s' x = map_of s x)"
    if free: "\<forall>k\<in>set ks. \<not> redis_exists s (dest k)"
  proof -
    let ?s' = "move_children cfg s oldKey newKey ks"
    from free have "check_destinations s oldKey newKey newPath ks = None"
      by (simp add: check_destinations_None dest_def)
    then have r: "rename cfg s oldPath newPath =
        (Inr (''Renamed '' @ oldPath @ '' to '' @ newPath), ?s')"
      using old new nofile ne by (simp add: rename_def ks_def [symmetric] Let_def)
    have nd: "\<forall>k\<in>set ks. newKey @ drop (length oldKey) k \<notin> set ks"
    proof
      fix k assume "k \<in> set ks"
      with free have "map_of s (dest k) = None" by (simp add: redis_exists_def)
      with present show "newKey @ drop (length oldKey) k \<notin> set ks"
        unfolding dest_def by blast
    qed
    have src: "map_of ?s' k = None" if "k \<in> set ks" for k
      using that nd by (rule move_children_source)
    have dst: "\<exists>e. map_of s k = Some e \<and>
        map_of ?s' (dest k) = Some \<lparr>content = content e, expiry = ttl_set cfg\<rparr>"
      if k: "k \<in> set ks" for k
    proof -
      from present [OF k] obtain e where e: "map_of s k = Some e" by auto
      from move_children_dest [OF k e nd inj] e show ?thesis
        by (simp add: dest_def)
    qed
    have other: "map_of ?s' x = map_of s x" if "x \<notin> set ks \<and> x \<notin> dest ` set ks" for x
      using that nd by (intro move_children_other) (auto simp: dest_def)
    from r src dst other show ?thesis by blast
  qed
  from ne conflict moved show ?thesis
    unfolding Let_def ks_def [symmetric] dest_def [symmetric] by blast
qed

lemma rename_eval:
  "rename (RedisMemoryTool None None None)
     [(''memory:/memories/d/a'', \<lparr>content = ''one'', expiry = None\<rparr>),
      (''memory:/memories/d/b/c'', \<lparr>content = ''two'', expiry = None\<rparr>),
      (''memory:/memories/e/b/c'', \<lparr>content = ''old'', expiry = None\<rparr>)]
     ''/memories/d'' ''/memories/e''
   = (Inl (DestinationExists ''/memories/e/b/c''),
      [(''memory:/memories/d/a'', \<lparr>content = ''one'', expiry = None\<rparr>),
       (''memory:/memories/d/b/c'', \<lparr>content = ''two'', expiry = None\<rparr>),
       (''memory:/memories/e/b/c'', \<lparr>content = ''old'', expiry = None\<rparr>)]) \<and>
   rename (RedisMemoryTool None None None)
     [(''memory:/memories/d/a'', \<lparr>content = ''one'', expiry = None\<rparr>),
      (''memory:/memories/d/b/c'', \<lparr>content = ''two'', expiry = None\<rparr>),
      (''memory:/memories/e/b/c'', \<lparr>content = ''old'', expiry = None\<rparr>)]
     ''/memories/d'' ''/memories/f''
   = (Inr ''Renamed /memories/d to /memories/f'',
      [(''memory:/memories/e/b/c'', \<lparr>content = ''old'', expiry = None\<rparr>),
       (''memory:/memories/f/a'', \<lparr>content = ''one'', expiry = None\<rparr>),
       (''memory:/memories/f/b/c'', \<lparr>content = ''two'', expiry = None\<rparr>)])"
  by code_simp


theorem rename_directory_all_or_nothing_witness:
  "rename (RedisMemoryTool None None None)
     [(''memory:/memories/d/a'', \<lparr>content = ''one'', expiry = None\<rparr>),
      (''memory:/memories/d/b/c'', \<lparr>content = ''two'', expiry = None\<rparr>),
      (''memory:/memories/e/b/c'', \<lparr>content = ''old'', expiry = None\<rparr>)]
     ''/memories/d'' ''/memories/e''
   = (Inl (DestinationExists ''/memories/e/b/c''),
      [(''memory:/memories/d/a'', \<lparr>content = ''one'', expiry = None\<rparr>),
       (''memory:/memories/d/b/c'', \<lparr>content = ''two'', expiry = None\<rparr>),
       (''memory:/memories/e/b/c'', \<lparr>content = ''old'', expiry = None\<rparr>)]) \<and>
   rename (RedisMemoryTool None None None)
     [(''memory:/memories/d/a'', \<lparr>content = ''one'', expiry = None\<rparr>),
      (''memory:/memories/d/b/c'', \<lparr>content = ''two'', expiry = None\<rparr>),
      (''memory:/memories/e/b/c'', \<lparr>content = ''old'', expiry = None\<rparr>)]
     ''/memories/d'' ''/memories/f''
   = (Inr ''Renamed /memories/d to /memories/f'',
      [(''memory:/memories/e/b/c'', \<lparr>content = ''old'', expiry = None\<rparr>),
       (''memory:/memories/f/a'', \<lparr>content = ''one'', expiry = None\<rparr>),
       (''memory:/memories/f/b/c'', \<lparr>content = ''two'', expiry = None\<rparr>)])"
proof -
  let ?cfg = "RedisMemoryTool None None None"
  let ?s = "[(''memory:/memories/d/a'', \<lparr>content = ''one'', expiry = None\<rparr>),
      (''memory:/memories/d/b/c'', \<lparr>content = ''two'', expiry = None\<rparr>),
      (''memory:/memories/e/b/c'', \<lparr>content = ''old'', expiry = None\<rparr>)]"
  have dir: "classify ?cfg ?s ''/memories/d'' = Inr Directory"
    by code_simp
  have old: "pathToKey ?cfg ''/memories/d'' = Inr ''memory:/memories/d''"
    by code_simp
  have new: "pathToKey ?cfg ''/memories/e'' = Inr ''memory:/memories/e''"
    by code_simp
  have ks: "redis_keys ?s (''memory:/memories/d'' @ ''/*'')
      = [''memory:/memories/d/a'', ''memory:/memories/d/b/c'']"
    by code_simp
  have taken: "redis_exists ?s
      (''memory:/memories/e'' @ drop (length ''memory:/memories/d'') ''memory:/memories/d/b/c'')"
    by code_simp
  have pre: "\<exists>k\<in>set [''memory:/memories/d/a'', ''memory:/memories/d/b/c''].
      redis_exists ?s (''memory:/memories/e'' @ drop (length ''memory:/memories/d'') k)"
    by (rule bexI [where x = "''memory:/memories/d/b/c''"]) (rule taken, simp)
  note all = rename_directory_all_or_nothing [OF dir old new, unfolded Let_def ks]
  from all [THEN conjunct2, THEN conjunct1, rule_format, OF pre]
  obtain k where "rename ?cfg ?s ''/memories/d'' ''/memories/e''
      = (Inl (DestinationExists (''/memories/e'' @ drop (length ''memory:/memories/d'') k)), ?s)"
    by blast
  then have kept: "snd (rename ?cfg ?s ''/memories/d'' ''/memories/e'') = ?s"
    by simp
  have new': "pathToKey ?cfg ''/memories/f'' = Inr ''memory:/memories/f''"
    by code_simp
  have free: "\<forall>k\<in>set [''memory:/memories/d/a'', ''memory:/memories/d/b/c''].
      \<not> redis_exists ?s (''memory:/memories/f'' @ drop (length ''memory:/memories/d'') k)"
    by code_simp
  note all' = rename_directory_all_or_nothing [OF dir old new', unfolded Let_def ks]
  from all' [THEN conjunct2, THEN conjunct2, THEN mp, OF free]
  obtain s' where "rename ?cfg ?s ''/memories/d'' ''/memories/f''
      = (Inr (''Renamed '' @ ''/memories/d'' @ '' to '' @ ''/memories/f''), s')"
    and "map_of s' ''memory:/memories/d/a'' = None"
    by auto
  then have moved: "fst (rename ?cfg ?s ''/memories/d'' ''/memories/f'')
      = Inr ''Renamed /memories/d to /memories/f''"
    by simp
  from kept moved rename_eval show ?thesis by simp
qed

section \<open>Replacing a unique text\<close>

text \<open>
  What \<open>str_replace\<close> does with an old text that is not empty and a new text
  without a dollar sign: a failure leaves the store as it is, and when the old text
  occurs at position \<open>j\<close> and nowhere behind that occurrence, the content is
  rewritten with the occurrence replaced by the new text.
\<close>

lemma get_substitution_plain:
  "CHR ''$'' \<notin> set new \<Longrightarrow> get_substitution matched pre post new = new"
  by (induction matched pre post new rule: get_substitution.induct) auto

lemma split_at_length_one:
  "old \<noteq> [] \<Longrightarrow> length (split_at old txt) = 1 \<longleftrightarrow> index_of old txt = None"
  by (subst split_at.simps) (auto simp: split_at_not_Nil split: option.splits)

lemma split_at_length_two:
  assumes "old \<noteq> []" and "index_of old txt = Some j"
  shows "length (split_at old txt) = 2 \<longleftrightarrow> index_of old (drop (j + length old) txt) = None"
proof -
  have "length (split_at old txt) = Suc (length (split_at old (drop (j + length old) txt)))"
    using assms by (subst split_at.simps) simp
  with split_at_length_one [OF assms(1), of "drop (j + length old) txt"] show ?thesis
    by simp
qed

lemma str_replace_failure_store:
  "fst (str_replace cfg s p old new) = Inl e \<Longrightarrow> snd (str_replace cfg s p old new) = s"
  by (auto simp: str_replace_def Let_def split: sum.splits option.splits if_splits)

lemma str_replace_plain:
  assumes key: "pathToKey cfg p = Inr key" and got: "redis_get s key = Some txt"
    and old: "old \<noteq> []" and plain: "CHR ''$'' \<notin> set new"
    and first: "index_of old txt = Some j"
    and only: "index_of old (drop (j + length old) txt) = None"
  shows "str_replace cfg s p old new =
           (Inr (''File '' @ p @ '' has been edited''),
            setWithTtl cfg s key (take j txt @ new @ drop (j + length old) txt))"
proof -
  from split_at_length_two [OF old first] only old
  have "int (length (split_js txt old)) - 1 = 1"
    by (simp add: split_js_def)
  moreover from first plain have "replace_first txt old new = take j txt @ new @ drop (j + length old) txt"
    by (simp add: replace_first_def get_substitution_plain)
  ultimately show ?thesis
    using key got by (simp add: str_replace_def Let_def)
qed

text \<open>
  Claim C2. With exactly one occurrence of the old text, \<open>str_replace\<close> should
  rewrite the content with that occurrence replaced by the new text. The handler
  passes the new text to \<^verbatim>\<open>String.prototype.replace\<close> as the replacement, where a
  dollar sign starts a substitution pattern: the new text \<^verbatim>\<open>$$5\<close> is stored as
  \<^verbatim>\<open>$5\<close>, and the new text \<^verbatim>\<open>$&\<close> stores the old text again.
\<close>

theorem str_replace_dollar_patterns:
  "str_replace (RedisMemoryTool None None None)
     [(''memory:/memories/f'', \<lparr>content = ''cost: TBD'', expiry = None\<rparr>)]
     ''/memories/f'' ''TBD'' ''$$5''
   = (Inr ''File /memories/f has been edited'',
      [(''memory:/memories/f'', \<lparr>content = ''cost: $5'', expiry = None\<rparr>)]) \<and>
   str_replace (RedisMemoryTool None None None)
     [(''memory:/memories/f'', \<lparr>content = ''cost: TBD'', expiry = None\<rparr>)]
     ''/memories/f'' ''TBD'' ''$&''
   = (Inr ''File /memories/f has been edited'',
      [(''memory:/memories/f'', \<lparr>content = ''cost: TBD'', expiry = None\<rparr>)])"
  by (simp add: str_replace_def RedisMemoryTool_def pathToKey_def strip_trailing_def
      redis_get_def split_js_def split_at.simps replace_first_def setWithTtl_def ttl_set_def
      redis_set_def)

section \<open>Deleting the root\<close>

text \<open>
  Claim C3. For every path that denotes the root, also one that only normalizes to it,
  \<open>delete\<close> should fail with the error for the protected root and leave the store as
  it is. The guard of the handler compares the path as given with
  \<^verbatim>\<open>/memories\<close>: the root itself is refused in every store, but the root with a
  trailing separator passes the guard, is encoded to the key of the root, and the scan
  under it deletes every entry of the namespace.
\<close>

theorem delete_root_trailing_separator:
  "delete_cmd cfg s ''/memories'' = (Inl CannotDeleteRoot, s) \<and>
   delete_cmd (RedisMemoryTool None None None)
     [(''memory:/memories/notes'', \<lparr>content = ''x'', expiry = None\<rparr>),
      (''memory:/memories/d/e'', \<lparr>content = ''y'', expiry = None\<rparr>)]
     ''/memories/''
   = (Inr ''Directory deleted: /memories/'', [])"
  by (simp add: delete_cmd_def RedisMemoryTool_def pathToKey_def strip_trailing_def
      redis_exists_def redis_keys_def pattern_matches_def redis_del_def)

section \<open>The path codec\<close>

lemma collapse_runs_slash:
  "collapse_runs (CHR ''/'' # cs) = CHR ''/'' # collapse_runs (dropWhile (\<lambda>x. x = CHR ''/'') cs)"
proof (induction cs)
  case Nil
  show ?case by simp
next
  case (Cons c cs)
  show ?case
  proof (cases "c = CHR ''/''")
    case True
    with Cons.IH show ?thesis by simp
  next
    case False
    then show ?thesis by (cases cs) simp_all
  qed
qed

lemma collapse_runs_other:
  "c \<noteq> CHR ''/'' \<Longrightarrow> collapse_runs (c # cs) = c # collapse_runs cs"
  by (cases cs) simp_all

lemma collapse_slashes_runs: "collapse_slashes s = collapse_runs s"
  by (induction s rule: collapse_slashes.induct)
     (simp_all add: collapse_runs_slash collapse_runs_other)

text \<open>
  What \<open>pathToKey\<close> does, for every string \<open>p\<close>: it fails, with the error for an
  invalid path, iff the characters \<^verbatim>\<open>/memories\<close> are not a prefix of \<open>p\<close>, and
  otherwise the key is the configured prefix, a colon, and \<open>p\<close> with every run of
  separators collapsed to one and one trailing separator stripped. Every path that
  begins with the root segment is encoded.
\<close>

lemma pathToKey_normal_form:
  "(pathToKey cfg p = Inl (InvalidPath p)) = (\<not> prefix ''/memories'' p) \<and>
   (prefix ''/memories'' p \<longrightarrow>
      pathToKey cfg p = Inr (keyPrefix cfg @ '':'' @ normalize_spec p))"
  by (simp add: pathToKey_def normalize_spec_def strip_trailing_def collapse_slashes_runs Let_def)

lemma pathToKey_under_root:
  assumes "begins_with_root_segment p"
  shows "pathToKey cfg p = Inr (keyPrefix cfg @ '':'' @ normalize_spec p)"
proof -
  from assms have "prefix ''/memories'' p"
    unfolding begins_with_root_segment_def
  proof
    assume "p = ''/memories''"
    then show ?thesis by simp
  next
    assume "prefix ''/memories/'' p"
    moreover have "prefix ''/memories'' ''/memories/''" by simp
    ultimately show ?thesis by (rule prefix_order.order_trans [rotated])
  qed
  with pathToKey_normal_form [of cfg p] show ?thesis by simp
qed

text \<open>
  Claim C4. For every string \<open>p\<close>, the encoding should fail with the error for an
  invalid path if and only if \<open>p\<close> does not begin with the root segment
  \<^verbatim>\<open>/memories\<close>. The guard of \<open>pathToKey\<close> tests the characters, not the
  segment: the path \<^verbatim>\<open>/memoriesXYZ/secret\<close> does not begin with the root segment
  and is encoded all the same. \<open>create\<close> stores a file under its key, outside the
  root: the view of the root shows an empty directory, \<open>clearAll\<close> leaves the entry
  in the store and \<open>getAllPaths\<close> does not list it.
\<close>

theorem pathToKey_accepts_sibling_of_root:
  "\<not> begins_with_root_segment ''/memoriesXYZ/secret'' \<and>
   pathToKey (RedisMemoryTool None None None) ''/memoriesXYZ/secret''
     = Inr ''memory:/memoriesXYZ/secret'' \<and>
   create (RedisMemoryTool None None None) [] ''/memoriesXYZ/secret'' ''x''
     = (Inr ''File created successfully at /memoriesXYZ/secret'',
        [(''memory:/memoriesXYZ/secret'', \<lparr>content = ''x'', expiry = None\<rparr>)]) \<and>
   view (RedisMemoryTool None None None)
     [(''memory:/memoriesXYZ/secret'', \<lparr>content = ''x'', expiry = None\<rparr>)] ''/memories'' None
     = (Inr (''Directory: /memories'' @ newline @ ''(empty)''),
        [(''memory:/memoriesXYZ/secret'', \<lparr>content = ''x'', expiry = None\<rparr>)]) \<and>
   clearAll (RedisMemoryTool None None None)
     [(''memory:/memoriesXYZ/secret'', \<lparr>content = ''x'', expiry = None\<rparr>)]
     = [(''memory:/memoriesXYZ/secret'', \<lparr>content = ''x'', expiry = None\<rparr>)] \<and>
   getAllPaths (RedisMemoryTool None None None)
     [(''memory:/memoriesXYZ/secret'', \<lparr>content = ''x'', expiry = None\<rparr>)] = []"
  by code_simp

section \<open>Creating and deleting a file\<close>

text \<open>
  Claim C5, as stated: for every valid path \<open>p\<close> and text \<open>t\<close>, \<open>create\<close> fails with
  the error for an existing file iff an entry exists at exactly the key of \<open>p\<close>; after a
  successful \<open>create\<close> the path classifies as \<open>File\<close>, and after a subsequent
  successful \<open>delete\<close> as \<open>Absent\<close>. The last part fails for a path that has
  descendants: \<open>create\<close> succeeds on it, \<open>delete\<close> removes the one key, and the path
  classifies as \<open>Directory\<close> again.
\<close>

theorem create_delete_directory_counterexample:
  "create (RedisMemoryTool None None None)
     [(''memory:/memories/d/x'', \<lparr>content = ''one'', expiry = None\<rparr>)] ''/memories/d'' ''two''
     = (Inr ''File created successfully at /memories/d'',
        [(''memory:/memories/d/x'', \<lparr>content = ''one'', expiry = None\<rparr>),
         (''memory:/memories/d'', \<lparr>content = ''two'', expiry = None\<rparr>)]) \<and>
   delete_cmd (RedisMemoryTool None None None)
     [(''memory:/memories/d/x'', \<lparr>content = ''one'', expiry = None\<rparr>),
      (''memory:/memories/d'', \<lparr>content = ''two'', expiry = None\<rparr>)] ''/memories/d''
     = (Inr ''File deleted: /memories/d'',
        [(''memory:/memories/d/x'', \<lparr>content = ''one'', expiry = None\<rparr>)]) \<and>
   classify (RedisMemoryTool None None None)
     [(''memory:/memories/d/x'', \<lparr>content = ''one'', expiry = None\<rparr>)] ''/memories/d''
     = Inr Directory \<and>
   Directory \<noteq> Absent"
  by (simp add: create_def delete_cmd_def classify_def RedisMemoryTool_def pathToKey_def
      strip_trailing_def redis_exists_def redis_keys_def redis_del_def setWithTtl_def ttl_set_def
      redis_set_def pattern_matches_def)

text \<open>
  Claim C5, amended: for every valid path \<open>p\<close> with key \<open>key\<close> and every text \<open>t\<close>,
  \<open>create\<close> fails with the error for an existing file iff an entry exists at exactly
  \<open>key\<close>, and then the store is left as it is; otherwise it succeeds, \<open>t\<close> is stored
  at \<open>key\<close> and \<open>p\<close> classifies as \<open>File\<close>; after a subsequent successful \<open>delete\<close>,
  \<open>p\<close> classifies as \<open>Absent\<close> when it had no descendant before, and as \<open>Directory\<close>
  when it had one.
\<close>

theorem create_delete_lifecycle:
  assumes key: "pathToKey cfg p = Inr key"
  shows "((fst (create cfg s p t) = Inl (FileExists p)) = redis_exists s key) \<and>
    (redis_exists s key \<longrightarrow> create cfg s p t = (Inl (FileExists p), s)) \<and>
    (\<not> redis_exists s key \<longrightarrow>
       (\<exists>s1. create cfg s p t = (Inr (''File created successfully at '' @ p), s1) \<and>
          redis_get s1 key = Some t \<and>
          classify cfg s1 p = Inr File \<and>
          (\<forall>m s2. delete_cmd cfg s1 p = (Inr m, s2) \<longrightarrow>
             classify cfg s2 p =
               Inr (if redis_keys s (key @ ''/*'') = [] then Absent else Directory))))"
proof (intro conjI impI)
  show "(fst (create cfg s p t) = Inl (FileExists p)) = redis_exists s key"
    using key by (simp add: create_def)
next
  assume "redis_exists s key"
  then show "create cfg s p t = (Inl (FileExists p), s)"
    using key by (simp add: create_def)
next
  assume ne: "\<not> redis_exists s key"
  let ?s1 = "setWithTtl cfg s key t"
  have c: "create cfg s p t = (Inr (''File created successfully at '' @ p), ?s1)"
    using key ne by (simp add: create_def)
  have g: "redis_get ?s1 key = Some t"
    by (simp add: redis_get_def map_of_setWithTtl)
  have f: "classify cfg ?s1 p = Inr File"
    using key by (simp add: classify_def redis_exists_def map_of_setWithTtl)
  have d: "classify cfg s2 p = Inr (if redis_keys s (key @ ''/*'') = [] then Absent else Directory)"
    if del: "delete_cmd cfg ?s1 p = (Inr m, s2)" for m s2
  proof -
    have ex: "redis_exists ?s1 key"
      by (simp add: redis_exists_def map_of_setWithTtl)
    from del key ex have s2: "s2 = redis_del ?s1 [key]"
      by (auto simp: delete_cmd_def split: if_splits)
    have "\<not> redis_exists s2 key"
      by (simp add: s2 redis_exists_def map_of_redis_del)
    moreover have "redis_keys s2 (key @ ''/*'') = redis_keys s (key @ ''/*'')"
      by (simp add: s2 redis_keys_del_other redis_keys_setWithTtl_other)
    ultimately show ?thesis
      using key by (simp add: classify_def)
  qed
  from c g f d
  show "\<exists>s1. create cfg s p t = (Inr (''File created successfully at '' @ p), s1) \<and>
          redis_get s1 key = Some t \<and>
          classify cfg s1 p = Inr File \<and>
          (\<forall>m s2. delete_cmd cfg s1 p = (Inr m, s2) \<longrightarrow>
             classify cfg s2 p =
               Inr (if redis_keys s (key @ ''/*'') = [] then Absent else Directory))"
    by blast
qed

theorem create_delete_lifecycle_witness:
  "pathToKey (RedisMemoryTool None None None) ''/memories/a'' = Inr ''memory:/memories/a'' \<and>
   classify (RedisMemoryTool None None None) [] ''/memories/a'' = Inr Absent \<and>
   create (RedisMemoryTool None None None) [] ''/memories/a'' ''x''
     = (Inr ''File created successfully at /memories/a'',
        [(''memory:/memories/a'', \<lparr>content = ''x'', expiry = None\<rparr>)]) \<and>
   classify (RedisMemoryTool None None None)
     [(''memory:/memories/a'', \<lparr>content = ''x'', expiry = None\<rparr>)] ''/memories/a'' = Inr File \<and>
   create (RedisMemoryTool None None None)
     [(''memory:/memories/a'', \<lparr>content = ''x'', expiry = None\<rparr>)] ''/memories/a'' ''y''
     = (Inl (FileExists ''/memories/a''),
        [(''memory:/memories/a'', \<lparr>content = ''x'', expiry = None\<rparr>)]) \<and>
   delete_cmd (RedisMemoryTool None None None)
     [(''memory:/memories/a'', \<lparr>content = ''x'', expiry = None\<rparr>)] ''/memories/a''
     = (Inr ''File deleted: /memories/a'', [])"
proof -
  let ?cfg = "RedisMemoryTool None None None"
  have key: "pathToKey ?cfg ''/memories/a'' = Inr ''memory:/memories/a''"
    by (simp add: RedisMemoryTool_def pathToKey_def strip_trailing_def)
  have fresh: "\<not> redis_exists [] ''memory:/memories/a''"
    by (simp add: redis_exists_def)
  from create_delete_lifecycle [OF key, of "[]" "''x''"] fresh obtain s1 where
    c: "create ?cfg [] ''/memories/a'' ''x'' = (Inr (''File created successfully at '' @ ''/memories/a''), s1)"
    and f: "classify ?cfg s1 ''/memories/a'' = Inr File"
    and d: "\<And>m s2. delete_cmd ?cfg s1 ''/memories/a'' = (Inr m, s2) \<Longrightarrow>
              classify ?cfg s2 ''/memories/a''
                = Inr (if redis_keys [] (''memory:/memories/a'' @ ''/*'') = [] then Absent else Directory)"
    by blast
  have s1: "s1 = [(''memory:/memories/a'', \<lparr>content = ''x'', expiry = None\<rparr>)]"
    using c
    by (simp add: create_def pathToKey_def strip_trailing_def redis_exists_def setWithTtl_def
        ttl_set_def redis_set_def RedisMemoryTool_def)
  have del: "delete_cmd ?cfg s1 ''/memories/a'' = (Inr ''File deleted: /memories/a'', [])"
    unfolding s1
    by (simp add: delete_cmd_def pathToKey_def strip_trailing_def redis_exists_def redis_del_def
        RedisMemoryTool_def)
  from d [OF del] have a: "classify ?cfg [] ''/memories/a'' = Inr Absent"
    by (simp add: redis_keys_def)
  have ex: "redis_exists s1 ''memory:/memories/a''"
    unfolding s1 by (simp add: redis_exists_def)
  from create_delete_lifecycle [OF key, of s1 "''y''"] ex
  have again: "create ?cfg s1 ''/memories/a'' ''y'' = (Inl (FileExists ''/memories/a''), s1)"
    by blast
  from key a c f again del show ?thesis
    unfolding s1 by simp
qed

section \<open>Viewing a created file\<close>

text \<open>
  Claim C6, as stated: for every valid path \<open>p\<close> and text \<open>t\<close>, \<open>view\<close> of \<open>p\<close> after
  \<open>create\<close> returns the lines of \<open>t\<close>, each with its number from 1 right-padded to 4
  columns. The root \<^verbatim>\<open>/memories\<close> is a valid path: \<open>create\<close> stores a file at its
  key, and \<open>view\<close> of it answers with the listing of the root directory, not with the
  file. For any other path the number is padded at its start, so it stands at the
  right of its four columns: line 1 is shown as three spaces and \<^verbatim>\<open>1\<close>, not as
  \<^verbatim>\<open>1\<close> and three spaces.
\<close>

theorem create_view_root_counterexample:
  "create (RedisMemoryTool None None None) [] ''/memories'' ''x''
     = (Inr ''File created successfully at /memories'',
        [(''memory:/memories'', \<lparr>content = ''x'', expiry = None\<rparr>)]) \<and>
   view (RedisMemoryTool None None None)
     [(''memory:/memories'', \<lparr>content = ''x'', expiry = None\<rparr>)] ''/memories'' None
     = (Inr (''Directory: /memories'' @ newline @ ''(empty)''),
        [(''memory:/memories'', \<lparr>content = ''x'', expiry = None\<rparr>)]) \<and>
   create (RedisMemoryTool None None None) [] ''/memories/f'' ''x''
     = (Inr ''File created successfully at /memories/f'',
        [(''memory:/memories/f'', \<lparr>content = ''x'', expiry = None\<rparr>)]) \<and>
   view (RedisMemoryTool None None None)
     [(''memory:/memories/f'', \<lparr>content = ''x'', expiry = None\<rparr>)] ''/memories/f'' None
     = (Inr ''   1: x'',
        [(''memory:/memories/f'', \<lparr>content = ''x'', expiry = None\<rparr>)])"
  by code_simp

text \<open>
  Claim C6, amended: for every path \<open>p\<close> other than the literal root
  \<^verbatim>\<open>/memories\<close> and every text \<open>t\<close>, after a successful \<open>create\<close> of \<open>p\<close> with \<open>t\<close>,
  \<open>view\<close> of \<open>p\<close> with no range returns one output line for each line of \<open>t\<close>, in
  order and joined by newlines; output line \<open>j\<close>, counted from 0, is the number
  \<open>j + 1\<close> padded with spaces at its start to four characters, a colon, a space and
  line \<open>j\<close> of \<open>t\<close>; and the lines of \<open>t\<close> joined by newlines are \<open>t\<close> itself.
\<close>

theorem create_then_view:
  assumes not_root: "p \<noteq> ''/memories''"
    and created: "create cfg s p t = (Inr m, s1)"
  shows "\<exists>outs s2.
     view cfg s1 p None = (Inr (join_js newline outs), s2) \<and>
     length outs = length (split_js t newline) \<and>
     (\<forall>j<length outs.
        outs ! j = pad_start 4 CHR '' '' (string_of_nat (j + 1)) @ '': '' @ split_js t newline ! j) \<and>
     join_js newline (split_js t newline) = t"
proof -
  from created obtain key where key: "pathToKey cfg p = Inr key"
    and s1: "s1 = setWithTtl cfg s key t"
    by (auto simp: create_def split: sum.splits if_splits)
  have got: "redis_get s1 key = Some t"
    by (simp add: s1 redis_get_def map_of_setWithTtl)
  let ?outs = "render_lines 1 (split_js t newline)"
  have v: "view cfg s1 p None = (Inr (join_js newline ?outs), refreshTtl cfg s1 key)"
    using not_root key got by (simp add: view_def Let_def)
  have "join_js newline (split_js t newline) = t"
    by (simp add: split_js_def join_split_at)
  with v show ?thesis
    by (auto simp: render_lines_length render_lines_nth)
qed

theorem create_then_view_witness:
  "create (RedisMemoryTool None None None) [] ''/memories/f'' (''alpha'' @ newline @ ''beta'')
     = (Inr ''File created successfully at /memories/f'',
        [(''memory:/memories/f'',
          \<lparr>content = ''alpha'' @ newline @ ''beta'', expiry = None\<rparr>)]) \<and>
   view (RedisMemoryTool None None None)
     [(''memory:/memories/f'', \<lparr>content = ''alpha'' @ newline @ ''beta'', expiry = None\<rparr>)]
     ''/memories/f'' None
     = (Inr (''   1: alpha'' @ newline @ ''   2: beta''),
        [(''memory:/memories/f'',
          \<lparr>content = ''alpha'' @ newline @ ''beta'', expiry = None\<rparr>)])"
proof -
  let ?cfg = "RedisMemoryTool None None None"
  let ?s1 = "[(''memory:/memories/f'',
               \<lparr>content = ''alpha'' @ newline @ ''beta'', expiry = None\<rparr>)]"
  have c: "create ?cfg [] ''/memories/f'' (''alpha'' @ newline @ ''beta'')
      = (Inr ''File created successfully at /memories/f'', ?s1)"
    by code_simp
  have ne: "''/memories/f'' \<noteq> ''/memories''"
    by simp
  have v: "view ?cfg ?s1 ''/memories/f'' None
      = (Inr (''   1: alpha'' @ newline @ ''   2: beta''), ?s1)"
    by code_simp
  from create_then_view [OF ne c]
  have "\<exists>outs s2. view ?cfg ?s1 ''/memories/f'' None = (Inr (join_js newline outs), s2)"
    by blast
  with v c show ?thesis by simp
qed


section \<open>Inserting a line\<close>

text \<open>
  Claim C7. For every existing file with \<open>n\<close> lines and every integer \<open>i\<close>, \<open>insert\<close>
  fails with the error for an invalid line iff \<open>i\<close> is negative or greater than \<open>n\<close>,
  and then leaves the store as it is; otherwise it stores the lines of the file with
  the given text, one trailing newline stripped, put in at index \<open>i\<close> counted from 0:
  the lines before index \<open>i\<close> and the lines from index \<open>i\<close> on keep their order around
  it, and no other key changes. A text that has no newline left becomes exactly one line.
\<close>

theorem insert_at_line:
  assumes key: "pathToKey cfg p = Inr key" and stored_text: "redis_get s key = Some txt"
  shows "(let lines = split_js txt newline; t' = strip_trailing CHR 0x0A t in
     ((fst (insert_cmd cfg s p i t) = Inl (InvalidInsertLine i (length lines) p))
        = (i < 0 \<or> int (length lines) < i)) \<and>
     (i < 0 \<or> int (length lines) < i \<longrightarrow> snd (insert_cmd cfg s p i t) = s) \<and>
     (0 \<le> i \<and> i \<le> int (length lines) \<longrightarrow>
        (\<exists>new s'.
           insert_cmd cfg s p i t =
             (Inr (''Text inserted at line '' @ string_of_nat (nat i) @ '' in '' @ p), s') \<and>
           redis_get s' key = Some new \<and>
           (\<forall>k. k \<noteq> key \<longrightarrow> map_of s' k = map_of s k) \<and>
           new = join_js newline (take (nat i) lines @ [t'] @ drop (nat i) lines) \<and>
           split_js new newline = take (nat i) lines @ split_js t' newline @ drop (nat i) lines \<and>
           (CHR 0x0A \<notin> set t' \<longrightarrow>
              split_js new newline = take (nat i) lines @ [t'] @ drop (nat i) lines))))"
proof -
  define lines where "lines = split_js txt newline"
  define t' where "t' = strip_trailing CHR 0x0A t"
  define new where "new = join_js newline (take (nat i) lines @ [t'] @ drop (nat i) lines)"
  have lines_at: "lines = split_at newline txt"
    by (simp add: lines_def split_js_def)
  have no_nl: "split_at newline l = [l]" if l: "l \<in> set lines" for l
  proof -
    from l have "CHR 0x0A \<notin> set l"
      unfolding lines_at by (rule split_at_elems)
    then show ?thesis by (rule split_at_no_sep)
  qed
  have bad: "insert_cmd cfg s p i t = (Inl (InvalidInsertLine i (length lines) p), s)"
    if "i < 0 \<or> int (length lines) < i"
    using that key stored_text by (auto simp: insert_cmd_def lines_def Let_def)
  have good: "insert_cmd cfg s p i t =
      (Inr (''Text inserted at line '' @ string_of_nat (nat i) @ '' in '' @ p),
       setWithTtl cfg s key new)"
    if "0 \<le> i \<and> i \<le> int (length lines)"
    using that key stored_text
    by (auto simp: insert_cmd_def lines_def new_def t'_def splice_in_def Let_def)
  have split_new: "split_js new newline
      = take (nat i) lines @ split_js t' newline @ drop (nat i) lines"
  proof -
    have "split_at newline new
        = concat (map (split_at newline) (take (nat i) lines @ [t'] @ drop (nat i) lines))"
      unfolding new_def by (rule split_at_join) simp
    also have "\<dots> = concat (map (split_at newline) (take (nat i) lines))
        @ split_at newline t' @ concat (map (split_at newline) (drop (nat i) lines))"
      by simp
    also have "concat (map (split_at newline) (take (nat i) lines)) = take (nat i) lines"
      by (rule concat_map_singletons) (auto dest: in_set_takeD intro: no_nl)
    also have "concat (map (split_at newline) (drop (nat i) lines)) = drop (nat i) lines"
      by (rule concat_map_singletons) (auto dest: in_set_dropD intro: no_nl)
    finally show ?thesis by (simp add: split_js_def)
  qed
  have one: "split_js new newline = take (nat i) lines @ [t'] @ drop (nat i) lines"
    if "CHR 0x0A \<notin> set t'"
    using that split_new by (simp add: split_js_def split_at_no_sep)
  have iff: "(fst (insert_cmd cfg s p i t) = Inl (InvalidInsertLine i (length lines) p))
        = (i < 0 \<or> int (length lines) < i)"
  proof (cases "i < 0 \<or> int (length lines) < i")
    case True
    with bad show ?thesis by simp
  next
    case False
    then have "0 \<le> i \<and> i \<le> int (length lines)" by auto
    from good [OF this] False show ?thesis by simp
  qed
  have frame: "\<forall>k. k \<noteq> key \<longrightarrow> map_of (setWithTtl cfg s key new) k = map_of s k"
    by (simp add: map_of_setWithTtl)
  have stored: "redis_get (setWithTtl cfg s key new) key = Some new"
    by (simp add: redis_get_def map_of_setWithTtl)
  show ?thesis
    unfolding Let_def lines_def [symmetric] t'_def [symmetric]
    using iff bad good stored frame split_new one new_def by auto
qed

theorem insert_at_line_witness:
  "insert_cmd (RedisMemoryTool None None None)
     [(''memory:/memories/a'', \<lparr>content = ''l1'' @ newline @ ''l2'' @ newline @ ''l3'', expiry = None\<rparr>)]
     ''/memories/a'' 0 ''X''
   = (Inr ''Text inserted at line 0 in /memories/a'',
      [(''memory:/memories/a'',
        \<lparr>content = ''X'' @ newline @ ''l1'' @ newline @ ''l2'' @ newline @ ''l3'', expiry = None\<rparr>)]) \<and>
   insert_cmd (RedisMemoryTool None None None)
     [(''memory:/memories/a'', \<lparr>content = ''l1'' @ newline @ ''l2'' @ newline @ ''l3'', expiry = None\<rparr>)]
     ''/memories/a'' 3 (''Y'' @ newline)
   = (Inr ''Text inserted at line 3 in /memories/a'',
      [(''memory:/memories/a'',
        \<lparr>content = ''l1'' @ newline @ ''l2'' @ newline @ ''l3'' @ newline @ ''Y'', expiry = None\<rparr>)]) \<and>
   insert_cmd (RedisMemoryTool None None None)
     [(''memory:/memories/a'', \<lparr>content = ''l1'' @ newline @ ''l2'' @ newline @ ''l3'', expiry = None\<rparr>)]
     ''/memories/a'' 4 ''Z''
   = (Inl (InvalidInsertLine 4 3 ''/memories/a''),
      [(''memory:/memories/a'', \<lparr>content = ''l1'' @ newline @ ''l2'' @ newline @ ''l3'', expiry = None\<rparr>)]) \<and>
   insert_cmd (RedisMemoryTool None None None)
     [(''memory:/memories/a'', \<lparr>content = ''l1'' @ newline @ ''l2'' @ newline @ ''l3'', expiry = None\<rparr>)]
     ''/memories/a'' (- 1) ''Z''
   = (Inl (InvalidInsertLine (- 1) 3 ''/memories/a''),
      [(''memory:/memories/a'', \<lparr>content = ''l1'' @ newline @ ''l2'' @ newline @ ''l3'', expiry = None\<rparr>)])"
proof -
  let ?cfg = "RedisMemoryTool None None None"
  let ?s = "[(''memory:/memories/a'',
              \<lparr>content = ''l1'' @ newline @ ''l2'' @ newline @ ''l3'', expiry = None\<rparr>)]"
  have key: "pathToKey ?cfg ''/memories/a'' = Inr ''memory:/memories/a''"
    by code_simp
  have stored: "redis_get ?s ''memory:/memories/a'' = Some (''l1'' @ newline @ ''l2'' @ newline @ ''l3'')"
    by code_simp
  have lines: "split_js (''l1'' @ newline @ ''l2'' @ newline @ ''l3'') newline = [''l1'', ''l2'', ''l3'']"
    by code_simp
  have strip: "strip_trailing CHR 0x0A ''X'' = ''X''" "strip_trailing CHR 0x0A (''Y'' @ newline) = ''Y''"
    by code_simp+
  have num: "string_of_nat 0 = ''0''" "string_of_nat 3 = ''3''"
    by code_simp+
  have upd: "\<And>v. setWithTtl ?cfg ?s ''memory:/memories/a'' v
      = [(''memory:/memories/a'', \<lparr>content = v, expiry = None\<rparr>)]"
    by (simp add: setWithTtl_def ttl_set_def RedisMemoryTool_def redis_set_def)
  have a: "insert_cmd ?cfg ?s ''/memories/a'' 0 ''X''
      = (Inr ''Text inserted at line 0 in /memories/a'',
         [(''memory:/memories/a'',
           \<lparr>content = ''X'' @ newline @ ''l1'' @ newline @ ''l2'' @ newline @ ''l3'', expiry = None\<rparr>)])"
    by code_simp
  have b: "insert_cmd ?cfg ?s ''/memories/a'' 3 (''Y'' @ newline)
      = (Inr ''Text inserted at line 3 in /memories/a'',
         [(''memory:/memories/a'',
           \<lparr>content = ''l1'' @ newline @ ''l2'' @ newline @ ''l3'' @ newline @ ''Y'', expiry = None\<rparr>)])"
    by code_simp
  have c: "fst (insert_cmd ?cfg ?s ''/memories/a'' 4 ''Z'') = Inl (InvalidInsertLine 4 3 ''/memories/a'')
      \<and> snd (insert_cmd ?cfg ?s ''/memories/a'' 4 ''Z'') = ?s"
    using insert_at_line [OF key stored, where i = 4 and t = "''Z''"] lines by (simp add: Let_def)
  have d: "fst (insert_cmd ?cfg ?s ''/memories/a'' (- 1) ''Z'')
        = Inl (InvalidInsertLine (- 1) 3 ''/memories/a'')
      \<and> snd (insert_cmd ?cfg ?s ''/memories/a'' (- 1) ''Z'') = ?s"
    using insert_at_line [OF key stored, where i = "- 1" and t = "''Z''"] lines by (simp add: Let_def)
  have e: "fst (insert_cmd ?cfg ?s ''/memories/a'' 0 ''X'')
      = Inr (''Text inserted at line '' @ string_of_nat (nat 0) @ '' in '' @ ''/memories/a'')"
    using insert_at_line [OF key stored, where i = 0 and t = "''X''"] lines
    by (auto simp: Let_def)
  from a b c d e show ?thesis
    by (simp add: prod_eq_iff)
qed

section \<open>Viewing the root\<close>

lemma isFile_under_root:
  "prefix ''/memories'' parent \<Longrightarrow>
     isFile cfg s (parent @ x) = Inr (redis_exists s (keyPrefix cfg @ '':'' @
        strip_trailing CHR ''/'' (collapse_slashes (parent @ x))))"
  by (simp add: isFile_def pathToKey_def prefix_prefix)

lemma collect_children_set:
  assumes "prefix ''/memories'' parent"
  shows "\<exists>cs. collect_children cfg s dp parent ks children = Inr cs \<and>
           set cs = set children \<union>
             (\<lambda>k. let seg = hd (split_js (drop (length dp) k) ''/'')
                  in if isFile cfg s (parent @ ''/'' @ seg) = Inr True then seg else seg @ ''/'')
             ` {k \<in> set ks. prefix dp k \<and> hd (split_js (drop (length dp) k) ''/'') \<noteq> []}"
proof (induction ks arbitrary: children)
  case Nil
  show ?case by simp
next
  case (Cons k ks)
  let ?seg = "hd (split_js (drop (length dp) k) ''/'')"
  show ?case
  proof (cases "prefix dp k \<and> ?seg \<noteq> []")
    case False
    then have "collect_children cfg s dp parent (k # ks) children
                 = collect_children cfg s dp parent ks children"
      by (auto simp: Let_def)
    moreover from False have
      "{k' \<in> set (k # ks). prefix dp k' \<and> hd (split_js (drop (length dp) k') ''/'') \<noteq> []}
        = {k' \<in> set ks. prefix dp k' \<and> hd (split_js (drop (length dp) k') ''/'') \<noteq> []}"
      by auto
    ultimately show ?thesis using Cons.IH [of children] by simp
  next
    case True
    obtain b where b: "isFile cfg s (parent @ ''/'' @ ?seg) = Inr b"
      using isFile_under_root [OF assms] by blast
    let ?item = "if b then ?seg else ?seg @ ''/''"
    from True b have step: "collect_children cfg s dp parent (k # ks) children
                 = collect_children cfg s dp parent ks (List.insert ?item children)"
      by (simp add: Let_def)
    from True have
      "{k' \<in> set (k # ks). prefix dp k' \<and> hd (split_js (drop (length dp) k') ''/'') \<noteq> []}
        = insert k {k' \<in> set ks. prefix dp k' \<and> hd (split_js (drop (length dp) k') ''/'') \<noteq> []}"
      by auto
    with step b show ?thesis using Cons.IH [of "List.insert ?item children"]
      by (auto simp: Let_def)
  qed
qed

text \<open>
  Claim C8. \<open>view\<close> of the root path \<^verbatim>\<open>/memories\<close> never fails and leaves the
  store as it is: when no key lies under the root it returns the directory header with
  the indicator \<^verbatim>\<open>(empty)\<close>, and otherwise the header with the sorted listing of
  the children, one for the first segment of every key under the root, shown with a
  trailing separator unless a file is stored at exactly the child's path.
\<close>

theorem view_root_never_fails:
  "\<exists>children.
     view cfg s ''/memories'' r =
       (Inr (if redis_keys s (keyPrefix cfg @ '':/memories/*'') = []
             then ''Directory: /memories'' @ newline @ ''(empty)''
             else ''Directory: /memories'' @ newline @ render_listing children), s) \<and>
     set children =
       (\<lambda>k. let seg = hd (split_js (drop (length (keyPrefix cfg @ '':/memories/'')) k) ''/'')
            in if isFile cfg s (''/memories/'' @ seg) = Inr True then seg else seg @ ''/'')
       ` {k \<in> set (redis_keys s (keyPrefix cfg @ '':/memories/*'')).
            hd (split_js (drop (length (keyPrefix cfg @ '':/memories/'')) k) ''/'') \<noteq> []}"
proof -
  let ?dp = "keyPrefix cfg @ '':/memories/''"
  let ?ks = "redis_keys s (keyPrefix cfg @ '':/memories/*'')"
  have pre: "\<forall>k\<in>set ?ks. prefix ?dp k"
    by (simp add: redis_keys_def pattern_matches_def butlast_append)
  from collect_children_set [of "''/memories''" cfg s ?dp ?ks "[]"]
  obtain cs where cs: "collect_children cfg s ?dp ''/memories'' ?ks [] = Inr cs"
    and set: "set cs = (\<lambda>k. let seg = hd (split_js (drop (length ?dp) k) ''/'')
                  in if isFile cfg s (''/memories'' @ ''/'' @ seg) = Inr True then seg else seg @ ''/'')
             ` {k \<in> set ?ks. prefix ?dp k \<and> hd (split_js (drop (length ?dp) k) ''/'') \<noteq> []}"
    by auto
  from pre have "{k \<in> set ?ks. prefix ?dp k \<and> hd (split_js (drop (length ?dp) k) ''/'') \<noteq> []}
    = {k \<in> set ?ks. hd (split_js (drop (length ?dp) k) ''/'') \<noteq> []}"
    by auto
  with set have set': "set cs = (\<lambda>k. let seg = hd (split_js (drop (length ?dp) k) ''/'')
                  in if isFile cfg s (''/memories/'' @ seg) = Inr True then seg else seg @ ''/'')
             ` {k \<in> set ?ks. hd (split_js (drop (length ?dp) k) ''/'') \<noteq> []}"
    by simp
  have "view cfg s ''/memories'' r =
       (Inr (if ?ks = [] then ''Directory: /memories'' @ newline @ ''(empty)''
             else ''Directory: /memories'' @ newline @ render_listing cs), s)"
    using cs by (simp add: view_def Let_def)
  with set' show ?thesis by blast
qed

lemma view_root_eval:
  "view (RedisMemoryTool None None None)
     [(''memory:/memories/d/x'', \<lparr>content = ''one'', expiry = None\<rparr>),
      (''memory:/memories/d/y'', \<lparr>content = ''two'', expiry = None\<rparr>),
      (''memory:/memories/a'', \<lparr>content = ''three'', expiry = None\<rparr>)] ''/memories'' None
   = (Inr (''Directory: /memories'' @ newline @ ''- a'' @ newline @ ''- d/''),
      [(''memory:/memories/d/x'', \<lparr>content = ''one'', expiry = None\<rparr>),
       (''memory:/memories/d/y'', \<lparr>content = ''two'', expiry = None\<rparr>),
       (''memory:/memories/a'', \<lparr>content = ''three'', expiry = None\<rparr>)])"
  by code_simp

theorem view_root_never_fails_witness:
  "view (RedisMemoryTool None None None) [] ''/memories'' None
     = (Inr (''Directory: /memories'' @ newline @ ''(empty)''), []) \<and>
   view (RedisMemoryTool None None None)
     [(''memory:/memories/d/x'', \<lparr>content = ''one'', expiry = None\<rparr>),
      (''memory:/memories/d/y'', \<lparr>content = ''two'', expiry = None\<rparr>),
      (''memory:/memories/a'', \<lparr>content = ''three'', expiry = None\<rparr>)] ''/memories'' None
   = (Inr (''Directory: /memories'' @ newline @ ''- a'' @ newline @ ''- d/''),
      [(''memory:/memories/d/x'', \<lparr>content = ''one'', expiry = None\<rparr>),
       (''memory:/memories/d/y'', \<lparr>content = ''two'', expiry = None\<rparr>),
       (''memory:/memories/a'', \<lparr>content = ''three'', expiry = None\<rparr>)])"
proof -
  have "redis_keys [] (keyPrefix (RedisMemoryTool None None None) @ '':/memories/*'') = []"
    by (simp add: redis_keys_def)
  with view_root_never_fails [of "RedisMemoryTool None None None" "[]" None]
  have "view (RedisMemoryTool None None None) [] ''/memories'' None
     = (Inr (''Directory: /memories'' @ newline @ ''(empty)''), [])"
    by auto
  with view_root_eval show ?thesis by simp
qed


section \<open>Expiration\<close>

lemma redis_ttl_setWithTtl:
  "redis_ttl (setWithTtl cfg s k v) x = (if x = k then ttl_set cfg else redis_ttl s x)"
  by (simp add: redis_ttl_def map_of_setWithTtl)

lemma redis_ttl_del:
  "redis_ttl (redis_del s ks) x = (if x \<in> set ks then None else redis_ttl s x)"
  by (simp add: redis_ttl_def map_of_redis_del)

lemma redis_ttl_expire:
  "redis_ttl (redis_expire s k t) x =
     (if x = k \<and> map_of s k \<noteq> None then Some t else redis_ttl s x)"
  by (auto simp: redis_ttl_def map_of_redis_expire split: option.splits)

lemma ttl_set_Some: "ttl cfg = Some t \<Longrightarrow> 0 < t \<Longrightarrow> ttl_set cfg = Some t"
  by (simp add: ttl_set_def)

lemma ttl_set_None: "ttl cfg = None \<or> ttl cfg = Some 0 \<Longrightarrow> ttl_set cfg = None"
  by (auto simp: ttl_set_def)

lemma create_success:
  "create cfg s p txt = (Inr m, s') \<Longrightarrow>
     \<exists>key. pathToKey cfg p = Inr key \<and> s' = setWithTtl cfg s key txt"
  by (auto simp: create_def split: sum.splits if_splits)

lemma str_replace_success:
  "str_replace cfg s p old new = (Inr m, s') \<Longrightarrow>
     \<exists>key c. pathToKey cfg p = Inr key \<and> s' = setWithTtl cfg s key c"
  by (auto simp: str_replace_def Let_def split: sum.splits option.splits if_splits)

lemma insert_success:
  "insert_cmd cfg s p i txt = (Inr m, s') \<Longrightarrow>
     \<exists>key c. pathToKey cfg p = Inr key \<and> s' = setWithTtl cfg s key c"
  by (auto simp: insert_cmd_def Let_def split: sum.splits option.splits if_splits)

lemma rename_success:
  assumes "rename cfg s p q = (Inr m, s')"
  shows "\<exists>oldKey newKey. pathToKey cfg p = Inr oldKey \<and> pathToKey cfg q = Inr newKey \<and>
     ((\<exists>c. redis_get s oldKey = Some c \<and> \<not> redis_exists s newKey \<and>
           s' = redis_del (setWithTtl cfg s newKey c) [oldKey]) \<or>
      (redis_get s oldKey = None \<and>
       (\<forall>k\<in>set (redis_keys s (oldKey @ ''/*'')).
           \<not> redis_exists s (newKey @ drop (length oldKey) k)) \<and>
       s' = move_children cfg s oldKey newKey (redis_keys s (oldKey @ ''/*''))))"
  using assms
  by (auto simp: rename_def Let_def check_destinations_None
      split: sum.splits option.splits if_splits)

lemma view_store:
  "snd (view cfg s p r) =
     (if p = ''/memories'' then s
      else case pathToKey cfg p of
             Inl e \<Rightarrow> s
           | Inr key \<Rightarrow> if redis_get s key = None then s else refreshTtl cfg s key)"
  by (auto simp: view_def Let_def split: sum.splits option.splits list.splits prod.splits)

lemma move_children_no_ttl:
  "ttl_set cfg = None \<Longrightarrow>
     redis_ttl (move_children cfg s oldKey newKey ks) x = Some e \<Longrightarrow> redis_ttl s x = Some e"
proof (induction ks arbitrary: s)
  case Nil
  then show ?case by simp
next
  case (Cons k0 ks)
  show ?case
  proof (cases "redis_get s k0")
    case None
    with Cons show ?thesis by simp
  next
    case (Some c)
    let ?s' = "redis_del (setWithTtl cfg s (newKey @ drop (length oldKey) k0) c) [k0]"
    from Some Cons.prems have "redis_ttl (move_children cfg ?s' oldKey newKey ks) x = Some e"
      by (simp add: Let_def)
    with Cons.IH Cons.prems(1) have "redis_ttl ?s' x = Some e" by blast
    with Cons.prems(1) show ?thesis
      by (simp add: redis_ttl_del redis_ttl_setWithTtl split: if_splits)
  qed
qed

lemma ttl_create:
  assumes "ttl_set cfg = Some t" "create cfg s p txt = (Inr m, s')" "pathToKey cfg p = Inr key"
  shows "map_of s' key = Some \<lparr>content = txt, expiry = Some t\<rparr>"
  using create_success [OF assms(2)] assms(1,3) by (auto simp: map_of_setWithTtl)

lemma ttl_str_replace:
  assumes "ttl_set cfg = Some t" "str_replace cfg s p old new = (Inr m, s')"
    "pathToKey cfg p = Inr key"
  shows "redis_ttl s' key = Some t"
  using str_replace_success [OF assms(2)] assms(1,3) by (auto simp: redis_ttl_setWithTtl)

lemma ttl_insert:
  assumes "ttl_set cfg = Some t" "insert_cmd cfg s p i txt = (Inr m, s')"
    "pathToKey cfg p = Inr key"
  shows "redis_ttl s' key = Some t"
  using insert_success [OF assms(2)] assms(1,3) by (auto simp: redis_ttl_setWithTtl)

lemma ttl_rename_file:
  assumes t: "ttl_set cfg = Some t" and r: "rename cfg s p q = (Inr m, s')"
    and old: "pathToKey cfg p = Inr key" and new: "pathToKey cfg q = Inr newKey"
    and f: "redis_get s key \<noteq> None"
  shows "redis_ttl s' newKey = Some t"
proof -
  from rename_success [OF r] old new f obtain c where
    c: "redis_get s key = Some c" and free: "\<not> redis_exists s newKey"
    and s': "s' = redis_del (setWithTtl cfg s newKey c) [key]"
    by auto
  from c free have "newKey \<noteq> key"
    by (auto simp: redis_get_def redis_exists_def)
  with s' t show ?thesis
    by (simp add: redis_ttl_del redis_ttl_setWithTtl)
qed

lemma ttl_rename_directory:
  assumes t: "ttl_set cfg = Some t" and r: "rename cfg s p q = (Inr m, s')"
    and old: "pathToKey cfg p = Inr key" and new: "pathToKey cfg q = Inr newKey"
    and d: "redis_get s key = None"
    and k: "k \<in> set (redis_keys s (key @ ''/*''))"
  shows "redis_ttl s' (newKey @ drop (length key) k) = Some t"
proof -
  let ?ks = "redis_keys s (key @ ''/*'')"
  from rename_success [OF r] old new d have
    free: "\<forall>k\<in>set ?ks. \<not> redis_exists s (newKey @ drop (length key) k)"
    and s': "s' = move_children cfg s key newKey ?ks"
    by auto
  have nd: "\<forall>k\<in>set ?ks. newKey @ drop (length key) k \<notin> set ?ks"
    using free by (auto simp: redis_keys_iff redis_exists_def)
  from k obtain e where e: "map_of s k = Some e"
    by (auto simp: redis_keys_iff)
  from move_children_dest [OF k e nd subtree_dest_inj] s' t show ?thesis
    by (simp add: redis_ttl_def)
qed

lemma ttl_view_file:
  assumes t: "ttl_set cfg = Some t" and nr: "p \<noteq> ''/memories''"
    and key: "pathToKey cfg p = Inr key" and c: "redis_get s key = Some c"
  shows "snd (view cfg s p r) = redis_expire s key t \<and>
         redis_ttl (snd (view cfg s p r)) key = Some t \<and>
         redis_get (snd (view cfg s p r)) key = Some c"
proof -
  from nr key c t have "snd (view cfg s p r) = redis_expire s key t"
    by (simp add: view_store refreshTtl_def)
  moreover from c have "map_of s key \<noteq> None"
    by (auto simp: redis_get_def)
  ultimately show ?thesis using c
    by (auto simp: redis_ttl_expire redis_get_def map_of_redis_expire)
qed

lemma view_listing_store:
  "p = ''/memories'' \<or> (pathToKey cfg p = Inr key \<and> redis_get s key = None) \<Longrightarrow>
     snd (view cfg s p r) = s"
  by (auto simp: view_store)

lemma no_ttl_create:
  "ttl_set cfg = None \<Longrightarrow> redis_ttl (snd (create cfg s p txt)) k = Some e \<Longrightarrow>
     redis_ttl s k = Some e"
  by (auto simp: create_def redis_ttl_setWithTtl split: sum.splits if_splits)

lemma no_ttl_str_replace:
  "ttl_set cfg = None \<Longrightarrow> redis_ttl (snd (str_replace cfg s p old new)) k = Some e \<Longrightarrow>
     redis_ttl s k = Some e"
  by (auto simp: str_replace_def Let_def redis_ttl_setWithTtl
      split: sum.splits option.splits if_splits)

lemma no_ttl_insert:
  "ttl_set cfg = None \<Longrightarrow> redis_ttl (snd (insert_cmd cfg s p i txt)) k = Some e \<Longrightarrow>
     redis_ttl s k = Some e"
  by (auto simp: insert_cmd_def Let_def redis_ttl_setWithTtl
      split: sum.splits option.splits if_splits)

lemma no_ttl_delete:
  "redis_ttl (snd (delete_cmd cfg s p)) k = Some e \<Longrightarrow> redis_ttl s k = Some e"
  by (auto simp: delete_cmd_def Let_def redis_ttl_del split: sum.splits if_splits)

lemma no_ttl_view:
  "ttl_set cfg = None \<Longrightarrow> snd (view cfg s p r) = s"
  by (auto simp: view_store refreshTtl_def split: sum.splits)

lemma rename_failure_store:
  assumes "fst (rename cfg s p q) = Inl err"
  shows "snd (rename cfg s p q) = s"
proof (cases "pathToKey cfg p")
  case (Inl e)
  then show ?thesis by (simp add: rename_def)
next
  case old: (Inr oldKey)
  show ?thesis
  proof (cases "pathToKey cfg q")
    case (Inl e)
    with old show ?thesis by (simp add: rename_def)
  next
    case new: (Inr newKey)
    show ?thesis
    proof (cases "redis_get s oldKey")
      case (Some c)
      with old new assms show ?thesis
        by (simp add: rename_def split: if_splits)
    next
      case None
      with old new assms show ?thesis
        by (simp add: rename_def Let_def split: if_splits option.splits)
    qed
  qed
qed

lemma no_ttl_rename:
  assumes n: "ttl_set cfg = None" and e: "redis_ttl (snd (rename cfg s p q)) k = Some e"
  shows "redis_ttl s k = Some e"
proof (cases "fst (rename cfg s p q)")
  case (Inl err)
  then have "snd (rename cfg s p q) = s"
    by (rule rename_failure_store)
  with e show ?thesis by simp
next
  case (Inr m)
  then have r: "rename cfg s p q = (Inr m, snd (rename cfg s p q))"
    by (simp add: prod_eq_iff)
  from rename_success [OF r] obtain oldKey newKey where
    "(\<exists>c. snd (rename cfg s p q) = redis_del (setWithTtl cfg s newKey c) [oldKey]) \<or>
     snd (rename cfg s p q) = move_children cfg s oldKey newKey (redis_keys s (oldKey @ ''/*''))"
    by blast
  then show ?thesis
  proof
    assume "\<exists>c. snd (rename cfg s p q) = redis_del (setWithTtl cfg s newKey c) [oldKey]"
    then obtain c where "snd (rename cfg s p q) = redis_del (setWithTtl cfg s newKey c) [oldKey]"
      by blast
    with e n show ?thesis
      by (simp add: redis_ttl_del redis_ttl_setWithTtl split: if_splits)
  next
    assume mv: "snd (rename cfg s p q)
      = move_children cfg s oldKey newKey (redis_keys s (oldKey @ ''/*''))"
    from e have "redis_ttl (move_children cfg s oldKey newKey (redis_keys s (oldKey @ ''/*''))) k
        = Some e"
      unfolding mv .
    with n show ?thesis by (rule move_children_no_ttl)
  qed
qed

text \<open>
  Claim C9. With a time to live \<open>t\<close> configured (and not zero, which the handlers
  treat as none), every write sets \<open>t\<close> on the key it writes: \<open>create\<close>,
  \<open>str_replace\<close> and \<open>insert\<close> on the key of the path, \<open>rename\<close> on the
  destination key of a file and on the destination key of every descendant of a
  directory; and \<open>view\<close> of a file sets \<open>t\<close> on the key of the file and changes
  nothing else. \<open>view\<close> of a directory or of the root, whose listing is built from a
  scan and existence probes, leaves the store as it is. With no time to live
  configured, an expiration found in the store after any handler was there before.
\<close>

theorem ttl_on_write_and_view:
  "(ttl cfg = Some t \<and> 0 < t \<longrightarrow>
      (create cfg s p txt = (Inr m, s') \<and> pathToKey cfg p = Inr key \<longrightarrow>
         map_of s' key = Some \<lparr>content = txt, expiry = Some t\<rparr>) \<and>
      (str_replace cfg s p old new = (Inr m, s') \<and> pathToKey cfg p = Inr key \<longrightarrow>
         redis_ttl s' key = Some t) \<and>
      (insert_cmd cfg s p i txt = (Inr m, s') \<and> pathToKey cfg p = Inr key \<longrightarrow>
         redis_ttl s' key = Some t) \<and>
      (rename cfg s p q = (Inr m, s') \<and> pathToKey cfg p = Inr key \<and>
       pathToKey cfg q = Inr newKey \<longrightarrow>
         (redis_get s key \<noteq> None \<longrightarrow> redis_ttl s' newKey = Some t) \<and>
         (redis_get s key = None \<longrightarrow>
            (\<forall>k\<in>set (redis_keys s (key @ ''/*'')).
               redis_ttl s' (newKey @ drop (length key) k) = Some t))) \<and>
      (p \<noteq> ''/memories'' \<and> pathToKey cfg p = Inr key \<and> redis_get s key = Some c \<longrightarrow>
         snd (view cfg s p r) = redis_expire s key t \<and>
         redis_ttl (snd (view cfg s p r)) key = Some t \<and>
         redis_get (snd (view cfg s p r)) key = Some c)) \<and>
   (p = ''/memories'' \<or> (pathToKey cfg p = Inr key \<and> redis_get s key = None) \<longrightarrow>
      snd (view cfg s p r) = s) \<and>
   (ttl cfg = None \<or> ttl cfg = Some 0 \<longrightarrow>
      (\<forall>k e. redis_ttl (snd (create cfg s p txt)) k = Some e \<longrightarrow> redis_ttl s k = Some e) \<and>
      (\<forall>k e. redis_ttl (snd (str_replace cfg s p old new)) k = Some e \<longrightarrow> redis_ttl s k = Some e) \<and>
      (\<forall>k e. redis_ttl (snd (insert_cmd cfg s p i txt)) k = Some e \<longrightarrow> redis_ttl s k = Some e) \<and>
      (\<forall>k e. redis_ttl (snd (rename cfg s p q)) k = Some e \<longrightarrow> redis_ttl s k = Some e) \<and>
      (\<forall>k e. redis_ttl (snd (delete_cmd cfg s p)) k = Some e \<longrightarrow> redis_ttl s k = Some e) \<and>
      snd (view cfg s p r) = s)"
proof (intro conjI impI allI ballI; (elim conjE)?)
  assume "ttl cfg = Some t" "0 < t"
  then have t: "ttl_set cfg = Some t" by (rule ttl_set_Some)
  {
    assume "create cfg s p txt = (Inr m, s')" "pathToKey cfg p = Inr key"
    with t show "map_of s' key = Some \<lparr>content = txt, expiry = Some t\<rparr>"
      by (rule ttl_create)
  }
  {
    assume "str_replace cfg s p old new = (Inr m, s')" "pathToKey cfg p = Inr key"
    with t show "redis_ttl s' key = Some t" by (rule ttl_str_replace)
  }
  {
    assume "insert_cmd cfg s p i txt = (Inr m, s')" "pathToKey cfg p = Inr key"
    with t show "redis_ttl s' key = Some t" by (rule ttl_insert)
  }
  {
    assume "rename cfg s p q = (Inr m, s')" "pathToKey cfg p = Inr key"
      "pathToKey cfg q = Inr newKey" "redis_get s key \<noteq> None"
    with t show "redis_ttl s' newKey = Some t" by (rule ttl_rename_file)
  }
  {
    fix k
    assume "rename cfg s p q = (Inr m, s')" "pathToKey cfg p = Inr key"
      "pathToKey cfg q = Inr newKey" "redis_get s key = None"
      "k \<in> set (redis_keys s (key @ ''/*''))"
    with t show "redis_ttl s' (newKey @ drop (length key) k) = Some t"
      by (rule ttl_rename_directory)
  }
  {
    assume a: "p \<noteq> ''/memories''" "pathToKey cfg p = Inr key" "redis_get s key = Some c"
    from ttl_view_file [OF t a, of r]
    show "snd (view cfg s p r) = redis_expire s key t"
      and "redis_ttl (snd (view cfg s p r)) key = Some t"
      and "redis_get (snd (view cfg s p r)) key = Some c"
      by blast+
  }
next
  assume "p = ''/memories'' \<or> pathToKey cfg p = Inr key \<and> redis_get s key = None"
  then show "snd (view cfg s p r) = s" by (rule view_listing_store)
next
  assume "ttl cfg = None \<or> ttl cfg = Some 0"
  then have n: "ttl_set cfg = None" by (rule ttl_set_None)
  {
    fix k e assume "redis_ttl (snd (create cfg s p txt)) k = Some e"
    with n show "redis_ttl s k = Some e" by (rule no_ttl_create)
  }
  {
    fix k e assume "redis_ttl (snd (str_replace cfg s p old new)) k = Some e"
    with n show "redis_ttl s k = Some e" by (rule no_ttl_str_replace)
  }
  {
    fix k e assume "redis_ttl (snd (insert_cmd cfg s p i txt)) k = Some e"
    with n show "redis_ttl s k = Some e" by (rule no_ttl_insert)
  }
  {
    fix k e assume "redis_ttl (snd (rename cfg s p q)) k = Some e"
    with n show "redis_ttl s k = Some e" by (rule no_ttl_rename)
  }
  {
    fix k e assume "redis_ttl (snd (delete_cmd cfg s p)) k = Some e"
    then show "redis_ttl s k = Some e" by (rule no_ttl_delete)
  }
  from n show "snd (view cfg s p r) = s" by (rule no_ttl_view)
qed



theorem ttl_on_write_and_view_witness:
  "create (RedisMemoryTool None (Some 3600) None) [] ''/memories/f'' ''x''
     = (Inr ''File created successfully at /memories/f'',
        [(''memory:/memories/f'', \<lparr>content = ''x'', expiry = Some 3600\<rparr>)]) \<and>
   str_replace (RedisMemoryTool None (Some 3600) None)
     [(''memory:/memories/f'', \<lparr>content = ''x'', expiry = Some 5\<rparr>)] ''/memories/f'' ''x'' ''z''
     = (Inr ''File /memories/f has been edited'',
        [(''memory:/memories/f'', \<lparr>content = ''z'', expiry = Some 3600\<rparr>)]) \<and>
   insert_cmd (RedisMemoryTool None (Some 3600) None)
     [(''memory:/memories/f'', \<lparr>content = ''x'', expiry = Some 5\<rparr>)] ''/memories/f'' 0 ''w''
     = (Inr ''Text inserted at line 0 in /memories/f'',
        [(''memory:/memories/f'', \<lparr>content = ''w'' @ newline @ ''x'', expiry = Some 3600\<rparr>)]) \<and>
   rename (RedisMemoryTool None (Some 3600) None)
     [(''memory:/memories/f'', \<lparr>content = ''x'', expiry = Some 5\<rparr>)] ''/memories/f'' ''/memories/g''
     = (Inr ''Renamed /memories/f to /memories/g'',
        [(''memory:/memories/g'', \<lparr>content = ''x'', expiry = Some 3600\<rparr>)]) \<and>
   rename (RedisMemoryTool None (Some 3600) None)
     [(''memory:/memories/d/g'', \<lparr>content = ''y'', expiry = Some 5\<rparr>)] ''/memories/d'' ''/memories/e''
     = (Inr ''Renamed /memories/d to /memories/e'',
        [(''memory:/memories/e/g'', \<lparr>content = ''y'', expiry = Some 3600\<rparr>)]) \<and>
   view (RedisMemoryTool None (Some 3600) None)
     [(''memory:/memories/f'', \<lparr>content = ''x'', expiry = Some 5\<rparr>)] ''/memories/f'' None
     = (Inr ''   1: x'',
        [(''memory:/memories/f'', \<lparr>content = ''x'', expiry = Some 3600\<rparr>)]) \<and>
   view (RedisMemoryTool None (Some 3600) None)
     [(''memory:/memories/d/g'', \<lparr>content = ''y'', expiry = Some 5\<rparr>)] ''/memories/d'' None
     = (Inr (''Directory: /memories/d'' @ newline @ ''- g''),
        [(''memory:/memories/d/g'', \<lparr>content = ''y'', expiry = Some 5\<rparr>)]) \<and>
   create (RedisMemoryTool None None None) [] ''/memories/f'' ''x''
     = (Inr ''File created successfully at /memories/f'',
        [(''memory:/memories/f'', \<lparr>content = ''x'', expiry = None\<rparr>)]) \<and>
   view (RedisMemoryTool None None None)
     [(''memory:/memories/f'', \<lparr>content = ''x'', expiry = Some 5\<rparr>)] ''/memories/f'' None
     = (Inr ''   1: x'',
        [(''memory:/memories/f'', \<lparr>content = ''x'', expiry = Some 5\<rparr>)])"
proof -
  let ?cfg = "RedisMemoryTool None (Some 3600) None"
  let ?plain = "RedisMemoryTool None None None"
  let ?f = "[(''memory:/memories/f'', \<lparr>content = ''x'', expiry = Some 5\<rparr>)]"
  let ?d = "[(''memory:/memories/d/g'', \<lparr>content = ''y'', expiry = Some 5\<rparr>)]"
  have t: "ttl ?cfg = Some 3600 \<and> (0::nat) < 3600"
    by (simp add: RedisMemoryTool_def)
  have no_t: "ttl ?plain = None \<or> ttl ?plain = Some 0"
    by (simp add: RedisMemoryTool_def)
  have kf: "pathToKey ?cfg ''/memories/f'' = Inr ''memory:/memories/f''"
    and kg: "pathToKey ?cfg ''/memories/g'' = Inr ''memory:/memories/g''"
    and kd: "pathToKey ?cfg ''/memories/d'' = Inr ''memory:/memories/d''"
    and ke: "pathToKey ?cfg ''/memories/e'' = Inr ''memory:/memories/e''"
    by code_simp+
  have gf: "redis_get ?f ''memory:/memories/f'' = Some ''x''"
    and gd: "redis_get ?d ''memory:/memories/d'' = None"
    and ks: "''memory:/memories/d/g'' \<in> set (redis_keys ?d (''memory:/memories/d'' @ ''/*''))"
    by code_simp+
  have c1: "create ?cfg [] ''/memories/f'' ''x''
      = (Inr ''File created successfully at /memories/f'',
         [(''memory:/memories/f'', \<lparr>content = ''x'', expiry = Some 3600\<rparr>)])"
    by code_simp
  have c2: "str_replace ?cfg ?f ''/memories/f'' ''x'' ''z''
      = (Inr ''File /memories/f has been edited'',
         [(''memory:/memories/f'', \<lparr>content = ''z'', expiry = Some 3600\<rparr>)])"
    by code_simp
  have c3: "insert_cmd ?cfg ?f ''/memories/f'' 0 ''w''
      = (Inr ''Text inserted at line 0 in /memories/f'',
         [(''memory:/memories/f'', \<lparr>content = ''w'' @ newline @ ''x'', expiry = Some 3600\<rparr>)])"
    by code_simp
  have c4: "rename ?cfg ?f ''/memories/f'' ''/memories/g''
      = (Inr ''Renamed /memories/f to /memories/g'',
         [(''memory:/memories/g'', \<lparr>content = ''x'', expiry = Some 3600\<rparr>)])"
    by code_simp
  have c5: "rename ?cfg ?d ''/memories/d'' ''/memories/e''
      = (Inr ''Renamed /memories/d to /memories/e'',
         [(''memory:/memories/e/g'', \<lparr>content = ''y'', expiry = Some 3600\<rparr>)])"
    by code_simp
  have c6: "view ?cfg ?f ''/memories/f'' None
      = (Inr ''   1: x'', [(''memory:/memories/f'', \<lparr>content = ''x'', expiry = Some 3600\<rparr>)])"
    by code_simp
  have c7: "view ?cfg ?d ''/memories/d'' None
      = (Inr (''Directory: /memories/d'' @ newline @ ''- g''), ?d)"
    by code_simp
  have c8: "create ?plain [] ''/memories/f'' ''x''
      = (Inr ''File created successfully at /memories/f'',
         [(''memory:/memories/f'', \<lparr>content = ''x'', expiry = None\<rparr>)])"
    by code_simp
  have c9: "view ?plain ?f ''/memories/f'' None = (Inr ''   1: x'', ?f)"
    by code_simp
  note written = ttl_on_write_and_view [where cfg = ?cfg and t = 3600
      and key = "''memory:/memories/f''" and p = "''/memories/f''", THEN conjunct1, THEN mp, OF t]
  from written [THEN conjunct1, THEN mp, OF conjI [OF c1 kf]]
  have w1: "map_of [(''memory:/memories/f'', \<lparr>content = ''x'', expiry = Some 3600\<rparr>)]
      ''memory:/memories/f'' = Some \<lparr>content = ''x'', expiry = Some 3600\<rparr>" .
  from written [THEN conjunct2, THEN conjunct1, THEN mp, OF conjI [OF c2 kf]]
  have w2: "redis_ttl [(''memory:/memories/f'', \<lparr>content = ''z'', expiry = Some 3600\<rparr>)]
      ''memory:/memories/f'' = Some 3600" .
  from written [THEN conjunct2, THEN conjunct2, THEN conjunct1, THEN mp, OF conjI [OF c3 kf]]
  have w3: "redis_ttl
      [(''memory:/memories/f'', \<lparr>content = ''w'' @ newline @ ''x'', expiry = Some 3600\<rparr>)]
      ''memory:/memories/f'' = Some 3600" .
  from written [THEN conjunct2, THEN conjunct2, THEN conjunct2, THEN conjunct1, THEN mp,
      OF conjI [OF c4 conjI [OF kf kg]], THEN conjunct1, THEN mp] gf
  have w4: "redis_ttl [(''memory:/memories/g'', \<lparr>content = ''x'', expiry = Some 3600\<rparr>)]
      ''memory:/memories/g'' = Some 3600"
    by simp
  from ttl_on_write_and_view [where cfg = ?cfg and t = 3600
      and key = "''memory:/memories/d''" and p = "''/memories/d''", THEN conjunct1, THEN mp, OF t,
      THEN conjunct2, THEN conjunct2, THEN conjunct2, THEN conjunct1, THEN mp,
      OF conjI [OF c5 conjI [OF kd ke]], THEN conjunct2, THEN mp, OF gd, THEN bspec, OF ks]
  have w5: "redis_ttl [(''memory:/memories/e/g'', \<lparr>content = ''y'', expiry = Some 3600\<rparr>)]
      (''memory:/memories/e'' @ drop (length ''memory:/memories/d'') ''memory:/memories/d/g'')
      = Some 3600" .
  have nr: "''/memories/f'' \<noteq> ''/memories''"
    by simp
  from ttl_on_write_and_view [where cfg = ?cfg and t = 3600 and s = ?f
      and key = "''memory:/memories/f''" and p = "''/memories/f''" and r = None,
      THEN conjunct1, THEN mp, OF t,
      THEN conjunct2, THEN conjunct2, THEN conjunct2, THEN conjunct2, THEN mp,
      OF conjI [OF nr conjI [OF kf gf]], THEN conjunct1]
  have w6: "snd (view ?cfg ?f ''/memories/f'' None) = redis_expire ?f ''memory:/memories/f'' 3600" .
  from ttl_on_write_and_view [where cfg = ?cfg and s = ?d and key = "''memory:/memories/d''"
      and p = "''/memories/d''" and r = None, THEN conjunct2, THEN conjunct1, THEN mp,
      OF disjI2, OF conjI [OF kd gd]]
  have w7: "snd (view ?cfg ?d ''/memories/d'' None) = ?d" .
  from ttl_on_write_and_view [where cfg = ?plain and s = ?f and p = "''/memories/f''"
      and r = None, THEN conjunct2, THEN conjunct2, THEN mp, OF no_t]
  have w8: "snd (view ?plain ?f ''/memories/f'' None) = ?f"
    by blast
  from w1 w2 w3 w4 w5 w6 w7 w8 c1 c2 c3 c4 c5 c6 c7 c8 c9 show ?thesis
    by (intro conjI)
qed

section \<open>A path that is a file and a directory\<close>

text \<open>
  Claim C10. For every valid path \<open>p\<close> that classifies as a directory (it has a
  descendant entry and no entry at exactly its key) and every text \<open>t\<close>, \<open>create\<close>
  succeeds and stores \<open>t\<close> at the key of \<open>p\<close>; the descendants stay, so the path is a
  file and a directory at once. The witness reaches this state from the empty store
  with two calls of \<open>create\<close>.
\<close>

theorem create_on_directory:
  assumes "classify cfg s p = Inr Directory"
  shows "\<exists>key s'. pathToKey cfg p = Inr key \<and>
           create cfg s p t = (Inr (''File created successfully at '' @ p), s') \<and>
           redis_get s' key = Some t \<and>
           redis_keys s' (key @ ''/*'') = redis_keys s (key @ ''/*'') \<and>
           redis_keys s' (key @ ''/*'') \<noteq> [] \<and>
           classify cfg s' p = Inr File"
proof -
  from assms obtain key where key: "pathToKey cfg p = Inr key"
    by (auto simp: classify_def split: sum.splits)
  with assms have ne: "\<not> redis_exists s key" and dir: "redis_keys s (key @ ''/*'') \<noteq> []"
    by (auto simp: classify_def split: if_splits)
  let ?s' = "setWithTtl cfg s key t"
  have "create cfg s p t = (Inr (''File created successfully at '' @ p), ?s')"
    using key ne by (simp add: create_def)
  moreover have "redis_get ?s' key = Some t"
    by (simp add: redis_get_def map_of_setWithTtl)
  moreover have "redis_keys ?s' (key @ ''/*'') = redis_keys s (key @ ''/*'')"
    by (simp add: redis_keys_setWithTtl_other)
  moreover have "classify cfg ?s' p = Inr File"
    using key by (simp add: classify_def redis_exists_def map_of_setWithTtl)
  ultimately show ?thesis using key dir by simp
qed

theorem create_on_directory_witness:
  "classify (RedisMemoryTool None None None)
     (snd (create (RedisMemoryTool None None None) [] ''/memories/d/x'' ''one'')) ''/memories/d''
     = Inr Directory \<and>
   create (RedisMemoryTool None None None)
     (snd (create (RedisMemoryTool None None None) [] ''/memories/d/x'' ''one'')) ''/memories/d'' ''two''
     = (Inr ''File created successfully at /memories/d'',
        [(''memory:/memories/d/x'', \<lparr>content = ''one'', expiry = None\<rparr>),
         (''memory:/memories/d'', \<lparr>content = ''two'', expiry = None\<rparr>)]) \<and>
   redis_keys
     [(''memory:/memories/d/x'', \<lparr>content = ''one'', expiry = None\<rparr>),
      (''memory:/memories/d'', \<lparr>content = ''two'', expiry = None\<rparr>)] ''memory:/memories/d/*''
     = [''memory:/memories/d/x'']"
proof -
  let ?cfg = "RedisMemoryTool None None None"
  let ?s1 = "snd (create ?cfg [] ''/memories/d/x'' ''one'')"
  have s1: "?s1 = [(''memory:/memories/d/x'', \<lparr>content = ''one'', expiry = None\<rparr>)]"
    by (simp add: create_def RedisMemoryTool_def pathToKey_def strip_trailing_def
        redis_exists_def setWithTtl_def ttl_set_def redis_set_def)
  have key: "pathToKey ?cfg ''/memories/d'' = Inr ''memory:/memories/d''"
    by (simp add: RedisMemoryTool_def pathToKey_def strip_trailing_def)
  have h: "classify ?cfg ?s1 ''/memories/d'' = Inr Directory"
    unfolding s1 by (simp add: classify_def key redis_exists_def redis_keys_def pattern_matches_def)
  from create_on_directory [OF h, of "''two''"] obtain s' where
    c: "create ?cfg ?s1 ''/memories/d'' ''two'' = (Inr (''File created successfully at '' @ ''/memories/d''), s')"
    by blast
  have "s' = [(''memory:/memories/d/x'', \<lparr>content = ''one'', expiry = None\<rparr>),
         (''memory:/memories/d'', \<lparr>content = ''two'', expiry = None\<rparr>)]"
    using c unfolding s1
    by (simp add: create_def pathToKey_def strip_trailing_def redis_exists_def setWithTtl_def
        ttl_set_def redis_set_def RedisMemoryTool_def)
  with c h show ?thesis by (simp add: redis_keys_def pattern_matches_def)
qed

end
